theory Spec2Isabelle
  imports Main "HOL-Library.Word"
begin

unbundle bit_operations_syntax

section \<open>The in-memory key-value store of \<^verbatim>\<open>linked_list.c\<close>\<close>

text \<open>
  The store is a hash table of \<^verbatim>\<open>HASH_TABLE_SIZE\<close> buckets with separate chaining.
  The embedding follows the C source function by function.

  \<^item> Sizes and counters (\<^verbatim>\<open>size_t\<close>) are 64-bit words and the hash accumulator
    (\<^verbatim>\<open>uint32_t\<close>) is a 32-bit word, so \<open>+\<close> and \<open>-\<close> wrap as in C on an LP64 target.
  \<^item> A C string is the list of its bytes before the terminating NUL. String buffers live
    in an explicit memory \<open>mem\<close>, a map from addresses to strings: \<^verbatim>\<open>strdup\<close> adds a
    buffer, \<^verbatim>\<open>free\<close> removes it, and a pointer that the API hands out
    (\<^verbatim>\<open>entry->value\<close> from \<^verbatim>\<open>db_get\<close>, \<^verbatim>\<open>entry->key\<close> from \<^verbatim>\<open>db_keys\<close>) is an address into it.
  \<^item> An \<^verbatim>\<open>Entry\<close> node never leaves the store; a bucket's chain of nodes linked by
    \<^verbatim>\<open>next\<close> is the list of its entries from the head on, each entry holding its two
    string pointers. The \<^verbatim>\<open>malloc\<close> that creates a node, the \<^verbatim>\<open>Database\<close> struct or the
    array of \<^verbatim>\<open>db_keys\<close> is modelled by its outcome, success or failure.
  \<^item> Whether plain \<^verbatim>\<open>char\<close> is signed is the target's choice; the hash function, and
    with it every operation that hashes a key, takes it as the parameter \<open>char_signed\<close>.
  \<^item> A pointer argument that may be \<^verbatim>\<open>NULL\<close> is an \<open>option\<close>: \<open>None\<close> is \<^verbatim>\<open>NULL\<close>.
  \<^item> Every operation that writes memory takes the heap and returns the new one; an
    operation that only reads returns its result alone.
\<close>

subsection \<open>Configuration\<close>

definition HASH_TABLE_SIZE :: nat where
  "HASH_TABLE_SIZE = 1024"

definition MAX_KEY_LENGTH :: nat where
  "MAX_KEY_LENGTH = 256"

definition MAX_VALUE_LENGTH :: nat where
  "MAX_VALUE_LENGTH = 4096"

subsection \<open>Memory and the allocator\<close>

type_synonym addr = "64 word"

definition NULL :: addr where
  "NULL = 0"

text \<open>
  \<open>mem\<close> holds the live string buffers. \<open>pending\<close> is the allocator's behaviour from
  here on: the address each coming request will be answered with. Any sequence is
  allowed, so a theorem about all heaps covers every allocator and every pattern of
  failures; a request fails (returns \<^verbatim>\<open>NULL\<close>) when the sequence is exhausted, when
  it offers \<^verbatim>\<open>NULL\<close>, or when it offers an address that is still in use.
\<close>

record heap =
  mem :: "addr \<Rightarrow> string option"
  pending :: "addr list"

definition malloc :: "heap \<Rightarrow> addr \<times> heap" where
  "malloc h =
     (case pending h of
        [] \<Rightarrow> (NULL, h)
      | a # rest \<Rightarrow>
          if a \<noteq> NULL \<and> mem h a = None then (a, h\<lparr>pending := rest\<rparr>)
          else (NULL, h\<lparr>pending := rest\<rparr>))"

definition strdup :: "heap \<Rightarrow> string \<Rightarrow> addr \<times> heap" where
  "strdup h s =
     (case malloc h of
        (p, h') \<Rightarrow> if p = NULL then (NULL, h') else (p, h'\<lparr>mem := (mem h')(p \<mapsto> s)\<rparr>))"

definition free :: "heap \<Rightarrow> addr \<Rightarrow> heap" where
  "free h p = (if p = NULL then h else h\<lparr>mem := (mem h)(p := None)\<rparr>)"

definition strlen :: "string \<Rightarrow> nat" where
  "strlen s = length s"

text \<open>\<^verbatim>\<open>strcmp\<close> compares bytes as unsigned values; only the sign of its result is fixed by C.\<close>

fun strcmp :: "string \<Rightarrow> string \<Rightarrow> int" where
  "strcmp [] [] = 0"
| "strcmp [] (b # bs) = - 1"
| "strcmp (a # as) [] = 1"
| "strcmp (a # as) (b # bs) =
     (if a = b then strcmp as bs
      else if (of_char a :: nat) < of_char b then - 1 else 1)"

subsection \<open>Data structures\<close>

record Entry =
  key :: addr
  "value" :: addr

record Database =
  table :: "Entry list list"
  count :: "64 word"

record DBStats =
  total_entries :: "64 word"
  total_collisions :: "64 word"
  max_chain_length :: "64 word"
  used_buckets :: "64 word"

subsection \<open>Hash function\<close>

text \<open>
  \<^verbatim>\<open>int c = *str++\<close> reads a plain \<^verbatim>\<open>char\<close>, whose signedness is the target's choice:
  with \<open>char_signed\<close> a byte from 128 on is read as a negative number, and
  \<^verbatim>\<open>hash + c\<close> converts it to \<^verbatim>\<open>uint32_t\<close> modulo \<open>2^32\<close>.
\<close>

definition char_int :: "bool \<Rightarrow> char \<Rightarrow> int" where
  "char_int char_signed ch =
     (if char_signed \<and> 128 \<le> (of_char ch :: nat) then int (of_char ch) - 256
      else int (of_char ch))"

fun hash_loop :: "bool \<Rightarrow> string \<Rightarrow> 32 word \<Rightarrow> 32 word" where
  "hash_loop char_signed [] hash = hash"
| "hash_loop char_signed (ch # str) hash =
     hash_loop char_signed str ((push_bit 5 hash + hash) + word_of_int (char_int char_signed ch))"

definition hash_function :: "bool \<Rightarrow> string \<Rightarrow> 32 word" where
  "hash_function char_signed str = hash_loop char_signed str 5381 mod of_nat HASH_TABLE_SIZE"

text \<open>
  The reference algorithm in the specification's words: start at 5381, update the
  accumulator to \<open>accumulator * 33 + c\<close> with unsigned 32-bit wrap-around for each
  \<open>c\<close>, and reduce modulo the table size.
\<close>

definition djb2_reference :: "int list \<Rightarrow> nat \<Rightarrow> int" where
  "djb2_reference cs table_size =
     foldl (\<lambda>accumulator c. (accumulator * 33 + c) mod 2 ^ 32) 5381 cs mod int table_size"

subsection \<open>Internal helper functions\<close>

definition create_entry :: "heap \<Rightarrow> string \<Rightarrow> string \<Rightarrow> Entry option \<times> heap" where
  "create_entry h k v =
     (case malloc h of
        (entry, h1) \<Rightarrow>
          if entry = NULL then (None, h1)
          else
            (case strdup h1 k of
               (kp, h2) \<Rightarrow>
                 (case strdup h2 v of
                    (vp, h3) \<Rightarrow>
                      if kp = NULL \<or> vp = NULL then (None, free (free h3 kp) vp)
                      else (Some \<lparr>key = kp, value = vp\<rparr>, h3))))"

definition free_entry :: "heap \<Rightarrow> Entry \<Rightarrow> heap" where
  "free_entry h entry = free (free h (key entry)) (value entry)"

fun free_chain :: "heap \<Rightarrow> Entry list \<Rightarrow> heap" where
  "free_chain h [] = h"
| "free_chain h (entry # rest) = free_chain (free_entry h entry) rest"

text \<open>\<^verbatim>\<open>strcmp(entry->key, key) == 0\<close>: the entry's key buffer is read through its pointer.\<close>

definition key_matches :: "heap \<Rightarrow> Entry \<Rightarrow> string \<Rightarrow> bool" where
  "key_matches h entry k =
     (case mem h (key entry) of None \<Rightarrow> False | Some s \<Rightarrow> strcmp s k = 0)"

subsection \<open>Public API functions\<close>

definition db_create :: "heap \<Rightarrow> Database option \<times> heap" where
  "db_create h =
     (case malloc h of
        (db, h') \<Rightarrow>
          if db = NULL then (None, h')
          else (Some \<lparr>table = replicate HASH_TABLE_SIZE [], count = 0\<rparr>, h'))"

definition db_destroy :: "heap \<Rightarrow> Database option \<Rightarrow> heap" where
  "db_destroy h db =
     (case db of
        None \<Rightarrow> h
      | Some d \<Rightarrow> fold (\<lambda>i h'. free_chain h' (table d ! i)) [0..<HASH_TABLE_SIZE] h)"

text \<open>
  The update loop of \<^verbatim>\<open>db_set\<close>. \<open>None\<close>: the walk reached the end of the chain
  without a match. Otherwise the function returned from inside the loop with the given
  result, heap and chain.
\<close>

fun set_loop :: "heap \<Rightarrow> string \<Rightarrow> string \<Rightarrow> Entry list \<Rightarrow> (bool \<times> heap \<times> Entry list) option" where
  "set_loop h k v [] = None"
| "set_loop h k v (entry # rest) =
     (if key_matches h entry k then
        (case strdup h v of
           (new_value, h') \<Rightarrow>
             if new_value = NULL then Some (False, h', entry # rest)
             else Some (True, free h' (value entry), entry\<lparr>value := new_value\<rparr> # rest))
      else
        (case set_loop h k v rest of
           None \<Rightarrow> None
         | Some (r, h', rest') \<Rightarrow> Some (r, h', entry # rest')))"

definition db_set ::
  "bool \<Rightarrow> heap \<Rightarrow> Database option \<Rightarrow> string option \<Rightarrow> string option
     \<Rightarrow> bool \<times> heap \<times> Database option" where
  "db_set char_signed h db k v =
     (case (db, k, v) of
        (Some d, Some k', Some v') \<Rightarrow>
          if MAX_KEY_LENGTH \<le> strlen k' \<or> MAX_VALUE_LENGTH \<le> strlen v' then (False, h, db)
          else
            (let index = unat (hash_function char_signed k') in
               case set_loop h k' v' (table d ! index) of
                 Some (r, h', chain') \<Rightarrow> (r, h', Some (d\<lparr>table := (table d)[index := chain']\<rparr>))
               | None \<Rightarrow>
                   (case create_entry h k' v' of
                      (None, h') \<Rightarrow> (False, h', db)
                    | (Some new_entry, h') \<Rightarrow>
                        (True, h',
                         Some (d\<lparr>table := (table d)[index := new_entry # table d ! index],
                                 count := count d + 1\<rparr>))))
      | _ \<Rightarrow> (False, h, db))"

fun get_loop :: "heap \<Rightarrow> string \<Rightarrow> Entry list \<Rightarrow> addr" where
  "get_loop h k [] = NULL"
| "get_loop h k (entry # rest) =
     (if key_matches h entry k then value entry else get_loop h k rest)"

definition db_get :: "bool \<Rightarrow> heap \<Rightarrow> Database option \<Rightarrow> string option \<Rightarrow> addr" where
  "db_get char_signed h db k =
     (case (db, k) of
        (Some d, Some k') \<Rightarrow> get_loop h k' (table d ! unat (hash_function char_signed k'))
      | _ \<Rightarrow> NULL)"

text \<open>
  The loop of \<^verbatim>\<open>db_delete\<close>. \<open>prev\<close> is the part of the chain already walked: it is
  empty exactly when the C variable \<^verbatim>\<open>prev\<close> is \<^verbatim>\<open>NULL\<close>, and otherwise its last node is
  the one \<^verbatim>\<open>prev\<close> points to. The result is the chain as linked after the removal.
\<close>

fun delete_loop :: "heap \<Rightarrow> string \<Rightarrow> Entry list \<Rightarrow> Entry list \<Rightarrow> (heap \<times> Entry list) option" where
  "delete_loop h k prev [] = None"
| "delete_loop h k prev (entry # rest) =
     (if key_matches h entry k then
        Some (free_entry h entry, (case prev of [] \<Rightarrow> rest | _ # _ \<Rightarrow> prev @ rest))
      else delete_loop h k (prev @ [entry]) rest)"

definition db_delete ::
  "bool \<Rightarrow> heap \<Rightarrow> Database option \<Rightarrow> string option \<Rightarrow> bool \<times> heap \<times> Database option" where
  "db_delete char_signed h db k =
     (case (db, k) of
        (Some d, Some k') \<Rightarrow>
          (let index = unat (hash_function char_signed k') in
             case delete_loop h k' [] (table d ! index) of
               Some (h', chain') \<Rightarrow>
                 (True, h', Some (d\<lparr>table := (table d)[index := chain'], count := count d - 1\<rparr>))
             | None \<Rightarrow> (False, h, db))
      | _ \<Rightarrow> (False, h, db))"

definition db_exists :: "bool \<Rightarrow> heap \<Rightarrow> Database option \<Rightarrow> string option \<Rightarrow> bool" where
  "db_exists char_signed h db k = (db_get char_signed h db k \<noteq> NULL)"

definition db_count :: "Database option \<Rightarrow> 64 word" where
  "db_count db = (case db of None \<Rightarrow> 0 | Some d \<Rightarrow> count d)"

definition db_clear :: "heap \<Rightarrow> Database option \<Rightarrow> heap \<times> Database option" where
  "db_clear h db =
     (case db of
        None \<Rightarrow> (h, db)
      | Some d \<Rightarrow>
          (case fold (\<lambda>i (h', t). (free_chain h' (t ! i), t[i := []])) [0..<HASH_TABLE_SIZE] (h, table d) of
             (h', t) \<Rightarrow> (h', Some (d\<lparr>table := t, count := 0\<rparr>))))"

text \<open>
  \<^verbatim>\<open>db_keys\<close> writes the number of keys through its second argument and returns a
  fresh array. The array is the returned list: it has \<^verbatim>\<open>db->count\<close> cells, whose
  content before the loop is not meaningful, and the loop stores \<^verbatim>\<open>entry->key\<close> at
  \<^verbatim>\<open>idx++\<close> for every entry.
\<close>

fun keys_chain :: "Entry list \<Rightarrow> addr list \<times> nat \<Rightarrow> addr list \<times> nat" where
  "keys_chain [] (keys, idx) = (keys, idx)"
| "keys_chain (entry # rest) (keys, idx) = keys_chain rest (keys[idx := key entry], Suc idx)"

definition db_keys ::
  "heap \<Rightarrow> Database option \<Rightarrow> 64 word option \<Rightarrow> addr list option \<times> 64 word option \<times> heap" where
  "db_keys h db cnt =
     (case (db, cnt) of
        (Some d, Some c) \<Rightarrow>
          if count d = 0 then (None, Some (count d), h)
          else
            (case malloc h of
               (keys, h') \<Rightarrow>
                 if keys = NULL then (None, Some (count d), h')
                 else
                   (Some (fst (fold (\<lambda>i. keys_chain (table d ! i)) [0..<HASH_TABLE_SIZE]
                                 (replicate (unat (count d)) NULL, 0))),
                    Some (count d), h'))
      | _ \<Rightarrow> (None, cnt, h))"

fun stats_chain :: "Entry list \<Rightarrow> 64 word \<times> DBStats \<Rightarrow> 64 word \<times> DBStats" where
  "stats_chain [] (chain_length, stats) = (chain_length, stats)"
| "stats_chain (entry # rest) (chain_length, stats) =
     stats_chain rest
       (chain_length + 1,
        if rest \<noteq> [] then stats\<lparr>total_collisions := total_collisions stats + 1\<rparr> else stats)"

definition stats_bucket :: "Entry list \<Rightarrow> DBStats \<Rightarrow> DBStats" where
  "stats_bucket chain stats =
     (if chain \<noteq> [] then
        (case stats_chain chain (0, stats\<lparr>used_buckets := used_buckets stats + 1\<rparr>) of
           (chain_length, stats') \<Rightarrow>
             if max_chain_length stats' < chain_length
             then stats'\<lparr>max_chain_length := chain_length\<rparr>
             else stats')
      else stats)"

definition db_stats :: "Database option \<Rightarrow> DBStats" where
  "db_stats db =
     (case db of
        None \<Rightarrow> \<lparr>total_entries = 0, total_collisions = 0, max_chain_length = 0, used_buckets = 0\<rparr>
      | Some d \<Rightarrow>
          fold (\<lambda>i. stats_bucket (table d ! i)) [0..<HASH_TABLE_SIZE]
            \<lparr>total_entries = count d, total_collisions = 0, max_chain_length = 0, used_buckets = 0\<rparr>)"

section \<open>Store invariants\<close>

text \<open>
  \<open>entries\<close> walks every bucket's chain in turn: all entries of the table in
  bucket-then-chain order. \<open>pointers\<close> lists the string pointers they hold.
\<close>

definition entries :: "Database \<Rightarrow> Entry list" where
  "entries d = concat (table d)"

definition chain_pointers :: "Entry list \<Rightarrow> addr list" where
  "chain_pointers chain = concat (map (\<lambda>e. [key e, value e]) chain)"

definition pointers :: "Database \<Rightarrow> addr list" where
  "pointers d = chain_pointers (entries d)"

text \<open>
  The representation invariant of the memory: the table has its fixed size, every
  string pointer of an entry is the address of a live buffer, and no buffer is shared
  (each \<^verbatim>\<open>strdup\<close> result is owned by one field of one entry).
\<close>

definition heap_ok :: "heap \<Rightarrow> Database \<Rightarrow> bool" where
  "heap_ok h d \<longleftrightarrow>
     length (table d) = HASH_TABLE_SIZE \<and> distinct (pointers d) \<and>
     (\<forall>p \<in> set (pointers d). p \<noteq> NULL \<and> mem h p \<noteq> None)"

text \<open>The three invariants of the specification's data model.\<close>

definition count_ok :: "Database \<Rightarrow> bool" where
  "count_ok d \<longleftrightarrow> unat (count d) = length (entries d)"

definition keys_unique :: "heap \<Rightarrow> Database \<Rightarrow> bool" where
  "keys_unique h d \<longleftrightarrow> distinct (map (\<lambda>e. mem h (key e)) (entries d))"

definition buckets_ok :: "bool \<Rightarrow> heap \<Rightarrow> Database \<Rightarrow> bool" where
  "buckets_ok cs h d \<longleftrightarrow>
     (\<forall>i \<in> set [0..<length (table d)]. \<forall>e \<in> set (table d ! i).
        case mem h (key e) of None \<Rightarrow> False | Some k \<Rightarrow> unat (hash_function cs k) = i)"

definition store_ok :: "bool \<Rightarrow> heap \<Rightarrow> Database \<Rightarrow> bool" where
  "store_ok cs h d \<longleftrightarrow> heap_ok h d \<and> count_ok d \<and> keys_unique h d \<and> buckets_ok cs h d"

text \<open>
  The stores a caller can hold: made by \<^verbatim>\<open>db_create\<close> and changed only by the
  operations of the API, while the rest of the program may allocate and free buffers
  of its own but leaves the buffers of the store alone.
\<close>

inductive reachable :: "bool \<Rightarrow> heap \<Rightarrow> Database \<Rightarrow> bool" for cs :: bool where
  created: "db_create h = (Some d, h') \<Longrightarrow> reachable cs h' d"
| after_set: "reachable cs h d \<Longrightarrow> db_set cs h (Some d) k v = (r, h', Some d') \<Longrightarrow> reachable cs h' d'"
| after_delete: "reachable cs h d \<Longrightarrow> db_delete cs h (Some d) k = (r, h', Some d') \<Longrightarrow> reachable cs h' d'"
| after_clear: "reachable cs h d \<Longrightarrow> db_clear h (Some d) = (h', Some d') \<Longrightarrow> reachable cs h' d'"
| after_keys: "reachable cs h d \<Longrightarrow> db_keys h (Some d) cnt = (ks, c, h') \<Longrightarrow> reachable cs h' d"
| elsewhere: "reachable cs h d \<Longrightarrow> \<forall>p \<in> set (pointers d). mem h' p = mem h p \<Longrightarrow> reachable cs h' d"

text \<open>A key is present when some entry of the table holds it.\<close>

definition present :: "heap \<Rightarrow> Database \<Rightarrow> string \<Rightarrow> bool" where
  "present h d k \<longleftrightarrow> Some k \<in> set (map (\<lambda>e. mem h (key e)) (entries d))"

text \<open>
  What the table holds, read through the pointers: for each bucket, in chain order, the
  key string and the value string of each entry.
\<close>

definition contents :: "heap \<Rightarrow> Database \<Rightarrow> (string option \<times> string option) list list" where
  "contents h d = map (map (\<lambda>e. (mem h (key e), mem h (value e)))) (table d)"

subsection \<open>Example stores\<close>

text \<open>
  \<open>heap0\<close> is an empty memory whose allocator will answer with the addresses 16, 32, ...;
  \<open>db0\<close> is the table that \<^verbatim>\<open>db_create\<close> builds; \<open>heap1\<close> and \<open>db1\<close> are the
  memory and the table after \<^verbatim>\<open>db_set(db, "a", "1")\<close>, with the key at address 32 and the
  value at 48 (\<^verbatim>\<open>"a"\<close> hashes to bucket 518).
\<close>

definition heap0 :: heap where
  "heap0 = \<lparr>mem = (\<lambda>p. None), pending = [16, 32, 48, 64, 80, 96]\<rparr>"

definition db0 :: Database where
  "db0 = \<lparr>table = replicate HASH_TABLE_SIZE [], count = 0\<rparr>"

definition heap1 :: heap where
  "heap1 = \<lparr>mem = (\<lambda>p. None)(32 \<mapsto> ''a'', 48 \<mapsto> ''1''), pending = [64, 80, 96]\<rparr>"

definition db1 :: Database where
  "db1 = \<lparr>table = (replicate HASH_TABLE_SIZE [])[518 := [\<lparr>key = 32, value = 48\<rparr>]], count = 1\<rparr>"

text \<open>
  \<open>heap2\<close> and \<open>db2\<close> are the memory and the table after a further
  \<^verbatim>\<open>db_set(db, "a", "2")\<close>: the new value is at address 64 and the buffer at 48 is freed.
\<close>

definition heap2 :: heap where
  "heap2 = \<lparr>mem = (\<lambda>p. None)(32 \<mapsto> ''a'', 48 \<mapsto> ''1'', 64 \<mapsto> ''2'', 48 := None),
             pending = [80, 96]\<rparr>"

definition db2 :: Database where
  "db2 = \<lparr>table = (replicate HASH_TABLE_SIZE [])[518 := [\<lparr>key = 32, value = 64\<rparr>]], count = 1\<rparr>"

section \<open>The hash function\<close>

lemma hash_loop_foldl:
  "hash_loop cs str hash = foldl (\<lambda>acc ch. acc * 33 + word_of_int (char_int cs ch)) hash str"
  by (induction str arbitrary: hash) (simp_all add: push_bit_eq_mult mult.commute)

lemma uint_step:
  "uint (acc * 33 + word_of_int c :: 32 word) = (uint acc * 33 + c) mod 2 ^ 32"
proof -
  have "uint (acc * 33 + word_of_int c :: 32 word) = (uint acc * 33 + c) mod 2 ^ LENGTH(32)"
    by (simp add: uint_word_ariths uint_word_of_int mod_simps)
  then show ?thesis by simp
qed

lemma uint_foldl_djb2:
  "uint (foldl (\<lambda>acc c. acc * 33 + word_of_int c) (hash :: 32 word) cs) =
   foldl (\<lambda>accumulator c. (accumulator * 33 + c) mod 2 ^ 32) (uint hash) cs"
  by (induction cs arbitrary: hash) (simp_all add: uint_step)

lemma hash_loop_reference:
  "uint (hash_loop cs str 5381) =
   foldl (\<lambda>accumulator c. (accumulator * 33 + c) mod 2 ^ 32) 5381 (map (char_int cs) str)"
proof -
  have "hash_loop cs str 5381 = foldl (\<lambda>acc c. acc * 33 + word_of_int c) 5381 (map (char_int cs) str)"
    by (simp add: hash_loop_foldl foldl_map)
  then show ?thesis
    by (simp add: uint_foldl_djb2)
qed

lemma hash_function_reference:
  "uint (hash_function cs str) = djb2_reference (map (char_int cs) str) HASH_TABLE_SIZE"
proof -
  have "uint (hash_function cs str) = uint (hash_loop cs str 5381) mod 1024"
    by (simp add: hash_function_def uint_mod_distrib HASH_TABLE_SIZE_def)
  also have "\<dots> = djb2_reference (map (char_int cs) str) HASH_TABLE_SIZE"
    unfolding djb2_reference_def hash_loop_reference by (simp add: HASH_TABLE_SIZE_def)
  finally show ?thesis .
qed

lemma hash_function_less: "unat (hash_function cs str) < HASH_TABLE_SIZE"
proof -
  have "hash_loop cs str 5381 mod 1024 < 1024"
    by (rule word_mod_less_divisor) simp
  then have "unat (hash_loop cs str 5381 mod 1024) < unat (1024 :: 32 word)"
    by (simp only: word_less_nat_alt)
  then show ?thesis
    by (simp add: hash_function_def HASH_TABLE_SIZE_def)
qed

lemma char_int_unsigned:
  "(cs \<longrightarrow> (of_char ch :: nat) < 128) \<Longrightarrow> char_int cs ch = int (of_char ch)"
  by (auto simp: char_int_def)

text \<open>
  Claim C8, as amended. The hash function is a function of the key alone, so two calls
  on the same key give the same index. Its value is the DJB2 reference algorithm of
  the specification (start at 5381, \<open>accumulator * 33 + c\<close> modulo \<open>2^32\<close> for each
  byte, then modulo the table size 1024), run on the numbers \<open>c\<close> that the code reads
  from the key's bytes through plain \<^verbatim>\<open>char\<close>: the byte's value where plain \<^verbatim>\<open>char\<close>
  is unsigned and for every byte below 128, and the byte's value minus 256 for a byte
  from 128 on where plain \<^verbatim>\<open>char\<close> is signed. The index lies in \<open>[0, table_size)\<close>.
\<close>

theorem hash_function_djb2:
  "uint (hash_function char_signed k) = djb2_reference (map (char_int char_signed) k) HASH_TABLE_SIZE
   \<and> unat (hash_function char_signed k) < HASH_TABLE_SIZE
   \<and> 0 \<le> uint (hash_function char_signed k)
   \<and> HASH_TABLE_SIZE = 1024
   \<and> ((char_signed \<longrightarrow> (\<forall>ch \<in> set k. (of_char ch :: nat) < 128)) \<longrightarrow>
        uint (hash_function char_signed k) = djb2_reference (map (\<lambda>ch. int (of_char ch)) k) 1024)"
proof -
  have r: "uint (hash_function char_signed k) =
      djb2_reference (map (char_int char_signed) k) HASH_TABLE_SIZE"
    by (rule hash_function_reference)
  have u: "uint (hash_function char_signed k) = djb2_reference (map (\<lambda>ch. int (of_char ch)) k) 1024"
    if a: "char_signed \<longrightarrow> (\<forall>ch \<in> set k. (of_char ch :: nat) < 128)"
  proof -
    have "map (char_int char_signed) k = map (\<lambda>ch. int (of_char ch)) k"
      using a by (auto simp: char_int_def)
    with r show ?thesis
      by (simp only: HASH_TABLE_SIZE_def)
  qed
  have "0 \<le> uint (hash_function char_signed k)"
    by simp
  with r u hash_function_less [of char_signed k] show ?thesis
    by (simp add: HASH_TABLE_SIZE_def)
qed

theorem hash_function_djb2_witness:
  "list_all (\<lambda>ch. (of_char ch :: nat) < 128) ''name''
   \<and> uint (hash_function True ''name'') = djb2_reference (map (\<lambda>ch. int (of_char ch)) ''name'') 1024
   \<and> djb2_reference (map (\<lambda>ch. int (of_char ch)) ''name'') 1024 = 70"
proof -
  have a: "True \<longrightarrow> (\<forall>ch \<in> set ''name''. (of_char ch :: nat) < 128)"
    by simp
  have b: "djb2_reference (map (\<lambda>ch. int (of_char ch)) ''name'') 1024 = 70"
    by (simp add: djb2_reference_def)
  have c: "list_all (\<lambda>ch. (of_char ch :: nat) < 128) ''name''"
    by simp
  from a b c hash_function_djb2 [of True "''name''"] show ?thesis
    by blast
qed

text \<open>
  The claim as stated, with \<open>c\<close> the value of the byte, fails where plain \<^verbatim>\<open>char\<close> is
  signed: for the two-byte key C3 A9 (the UTF-8 encoding of one accented letter) the
  code computes bucket 529, and the reference algorithm on the byte values 195 and 169
  gives 17.
\<close>

theorem hash_function_signed_char:
  "uint (hash_function True [CHR 0xC3, CHR 0xA9]) = 529
   \<and> djb2_reference (map (\<lambda>ch. int (of_char ch)) [CHR 0xC3, CHR 0xA9]) HASH_TABLE_SIZE = 17"
proof -
  have "uint (hash_function True [CHR 0xC3, CHR 0xA9]) = 529"
    by (simp add: hash_function_def char_int_def HASH_TABLE_SIZE_def)
  moreover have "djb2_reference (map (\<lambda>ch. int (of_char ch)) [CHR 0xC3, CHR 0xA9]) HASH_TABLE_SIZE = 17"
    by (simp add: djb2_reference_def HASH_TABLE_SIZE_def)
  ultimately show ?thesis
    by simp
qed

section \<open>Memory and chain lemmas\<close>

lemma strcmp_eq: "strcmp a b = 0 \<longleftrightarrow> a = b"
  by (induction a b rule: strcmp.induct) auto

lemma key_matches_iff: "key_matches h e k \<longleftrightarrow> mem h (key e) = Some k"
  by (auto simp: key_matches_def strcmp_eq split: option.splits)

lemma malloc_mem: "malloc h = (p, h') \<Longrightarrow> mem h' = mem h"
  by (auto simp: malloc_def split: list.splits if_splits)

lemma malloc_fresh: "malloc h = (p, h') \<Longrightarrow> p \<noteq> NULL \<Longrightarrow> mem h p = None"
  by (auto simp: malloc_def split: list.splits if_splits)

lemma strdup_cases:
  "strdup h s = (p, h') \<Longrightarrow>
     (p = NULL \<and> mem h' = mem h) \<or> (p \<noteq> NULL \<and> mem h p = None \<and> mem h' = (mem h)(p \<mapsto> s))"
  by (auto simp: strdup_def split: prod.splits if_splits dest: malloc_mem malloc_fresh)

lemma mem_free: "mem (free h p) = (if p = NULL then mem h else (mem h)(p := None))"
  by (simp add: free_def)

lemma fresh_upd_restore: "m p = None \<Longrightarrow> (m(p \<mapsto> s))(p := None) = m"
  by (rule ext) simp

lemma create_entry_cases:
  assumes "create_entry h k v = (r, h')"
  shows "(r = None \<and> mem h' = mem h) \<or>
         (\<exists>kp vp. r = Some \<lparr>key = kp, value = vp\<rparr> \<and> kp \<noteq> NULL \<and> vp \<noteq> NULL \<and> kp \<noteq> vp \<and>
            mem h kp = None \<and> mem h vp = None \<and> mem h' = (mem h)(kp \<mapsto> k, vp \<mapsto> v))"
proof -
  obtain e h1 where m: "malloc h = (e, h1)" by (cases "malloc h")
  obtain kp h2 where s1: "strdup h1 k = (kp, h2)" by (cases "strdup h1 k")
  obtain vp h3 where s2: "strdup h2 v = (vp, h3)" by (cases "strdup h2 v")
  have m1: "mem h1 = mem h" using m by (rule malloc_mem)
  show ?thesis
  proof (cases "e = NULL")
    case True
    with assms m m1 show ?thesis by (simp add: create_entry_def)
  next
    case False
    note c1 = strdup_cases [OF s1] and c2 = strdup_cases [OF s2]
    show ?thesis
    proof (cases "kp = NULL \<or> vp = NULL")
      case True
      with assms m s1 s2 False have r: "r = None" and h': "h' = free (free h3 kp) vp"
        by (simp_all add: create_entry_def)
      have "mem h' = mem h"
        using c1 c2 True m1 unfolding h' by (auto simp: mem_free fresh_upd_restore)
      with r show ?thesis by simp
    next
      case False
      with assms m s1 s2 \<open>e \<noteq> NULL\<close> have r: "r = Some \<lparr>key = kp, value = vp\<rparr>" and h': "h' = h3"
        by (simp_all add: create_entry_def)
      from False c1 c2 m1 have "kp \<noteq> vp" "mem h kp = None" "mem h vp = None"
        "mem h' = (mem h)(kp \<mapsto> k, vp \<mapsto> v)"
        unfolding h' by (auto split: if_splits)
      with r False show ?thesis by simp
    qed
  qed
qed

lemma set_loop_no_match:
  "\<forall>e \<in> set chain. mem h (key e) \<noteq> Some k \<Longrightarrow> set_loop h k v chain = None"
  by (induction chain) (simp_all add: key_matches_iff)

lemma set_loop_match:
  "\<forall>x \<in> set pre. mem h (key x) \<noteq> Some k \<Longrightarrow> mem h (key e) = Some k \<Longrightarrow>
   set_loop h k v (pre @ e # post) =
     (case strdup h v of
        (p, h1) \<Rightarrow>
          if p = NULL then Some (False, h1, pre @ e # post)
          else Some (True, free h1 (value e), pre @ e\<lparr>value := p\<rparr> # post))"
  by (induction pre) (auto simp: key_matches_iff split: prod.splits)

lemma get_loop_no_match:
  "\<forall>e \<in> set chain. mem h (key e) \<noteq> Some k \<Longrightarrow> get_loop h k chain = NULL"
  by (induction chain) (simp_all add: key_matches_iff)

lemma get_loop_match:
  "\<forall>x \<in> set pre. mem h (key x) \<noteq> Some k \<Longrightarrow> mem h (key e) = Some k \<Longrightarrow>
   get_loop h k (pre @ e # post) = value e"
  by (induction pre) (simp_all add: key_matches_iff)

lemma delete_loop_no_match:
  "\<forall>e \<in> set chain. mem h (key e) \<noteq> Some k \<Longrightarrow> delete_loop h k prev chain = None"
  by (induction chain arbitrary: prev) (simp_all add: key_matches_iff)

lemma delete_loop_match:
  "\<forall>x \<in> set pre. mem h (key x) \<noteq> Some k \<Longrightarrow> mem h (key e) = Some k \<Longrightarrow>
   delete_loop h k prev (pre @ e # post) = Some (free_entry h e, prev @ pre @ post)"
  by (induction pre arbitrary: prev) (simp_all add: key_matches_iff split: list.splits)

lemma first_match:
  "\<exists>e \<in> set chain. mem h (key e) = Some k \<Longrightarrow>
   \<exists>pre e post. chain = pre @ e # post \<and> (\<forall>x \<in> set pre. mem h (key x) \<noteq> Some k) \<and>
     mem h (key e) = Some k"
  using split_list_first_prop [of chain "\<lambda>e. mem h (key e) = Some k"] by blast

section \<open>Table lemmas\<close>

lemma chain_pointers_append [simp]:
  "chain_pointers (xs @ ys) = chain_pointers xs @ chain_pointers ys"
  by (simp add: chain_pointers_def)

lemma chain_pointers_Cons [simp]:
  "chain_pointers (e # xs) = key e # value e # chain_pointers xs"
  by (simp add: chain_pointers_def)

lemma chain_pointers_Nil [simp]: "chain_pointers [] = []"
  by (simp add: chain_pointers_def)

lemma length_chain_pointers: "length (chain_pointers xs) = 2 * length xs"
  by (induction xs) simp_all

lemma concat_split:
  "i < length t \<Longrightarrow> concat t = concat (take i t) @ t ! i @ concat (drop (Suc i) t)"
proof -
  assume "i < length t"
  then have "t = take i t @ t ! i # drop (Suc i) t"
    by (rule id_take_nth_drop)
  then have "concat t = concat (take i t @ t ! i # drop (Suc i) t)"
    by simp
  then show ?thesis by simp
qed

lemma concat_update:
  "i < length t \<Longrightarrow> concat (t[i := c]) = concat (take i t) @ c @ concat (drop (Suc i) t)"
  by (simp add: upd_conv_take_nth_drop)

lemma fold_nth:
  "length t = n \<Longrightarrow> fold (\<lambda>i. f (t ! i)) [0..<n] s = fold f t s"
proof -
  assume "length t = n"
  then have "map (\<lambda>i. t ! i) [0..<n] = t"
    by (auto simp: map_nth)
  then have "fold f t s = fold f (map (\<lambda>i. t ! i) [0..<n]) s"
    by simp
  also have "\<dots> = fold (\<lambda>i. f (t ! i)) [0..<n] s"
    by (simp add: fold_map comp_def)
  finally show ?thesis by simp
qed

lemma nonnull_addr_bound:
  fixes ps :: "addr list"
  assumes "distinct ps" "NULL \<notin> set ps"
  shows "length ps < 2 ^ 64"
proof -
  have "set ps \<subseteq> UNIV - {NULL}" using assms by auto
  then have "card (set ps) \<le> card (UNIV - {NULL} :: addr set)"
    by (intro card_mono) auto
  also have "\<dots> = 2 ^ 64 - 1"
    by (simp add: card_Diff_singleton card_word)
  finally show ?thesis
    using assms by (simp add: distinct_card)
qed

lemma entries_bound:
  assumes "heap_ok h d"
  shows "2 * length (entries d) < 2 ^ 64"
proof -
  have "distinct (pointers d)" "NULL \<notin> set (pointers d)"
    using assms by (auto simp: heap_ok_def)
  then have "length (pointers d) < 2 ^ 64"
    by (rule nonnull_addr_bound)
  then show ?thesis
    by (simp add: pointers_def length_chain_pointers)
qed

section \<open>Entries and their pointers\<close>

lemma in_entries: "j < length (table d) \<Longrightarrow> x \<in> set (table d ! j) \<Longrightarrow> x \<in> set (entries d)"
  by (auto simp: entries_def)

lemma entries_bucket:
  assumes "x \<in> set (entries d)"
  shows "\<exists>j < length (table d). x \<in> set (table d ! j)"
proof -
  from assms obtain ys where ys: "ys \<in> set (table d)" "x \<in> set ys"
    by (auto simp: entries_def)
  then obtain j where "j < length (table d)" "table d ! j = ys"
    by (auto simp: in_set_conv_nth)
  with ys show ?thesis by auto
qed

lemma key_in_pointers: "x \<in> set es \<Longrightarrow> key x \<in> set (chain_pointers es)"
  by (induction es) auto

lemma value_in_pointers: "x \<in> set es \<Longrightarrow> value x \<in> set (chain_pointers es)"
  by (induction es) auto

lemma key_neq_value:
  "distinct (chain_pointers es) \<Longrightarrow> x \<in> set es \<Longrightarrow> y \<in> set es \<Longrightarrow> key x \<noteq> value y"
  by (induction es) (auto dest: key_in_pointers value_in_pointers)

lemma key_inj:
  "distinct (chain_pointers es) \<Longrightarrow> x \<in> set es \<Longrightarrow> y \<in> set es \<Longrightarrow> key x = key y \<Longrightarrow> x = y"
  by (induction es) (auto dest: key_in_pointers value_in_pointers)

lemma heap_okD:
  assumes "heap_ok h d"
  shows "length (table d) = HASH_TABLE_SIZE" "distinct (chain_pointers (entries d))"
    "\<And>x. x \<in> set (entries d) \<Longrightarrow> key x \<noteq> NULL \<and> value x \<noteq> NULL \<and>
       mem h (key x) \<noteq> None \<and> mem h (value x) \<noteq> None"
  using assms by (auto simp: heap_ok_def pointers_def dest: key_in_pointers value_in_pointers)

lemma buckets_okD:
  "buckets_ok cs h d \<Longrightarrow> j < length (table d) \<Longrightarrow> x \<in> set (table d ! j) \<Longrightarrow>
   mem h (key x) = Some k \<Longrightarrow> unat (hash_function cs k) = j"
  by (fastforce simp: buckets_ok_def split: option.splits)

lemma present_bucket:
  assumes "buckets_ok cs h d" "length (table d) = HASH_TABLE_SIZE"
  shows "present h d k \<longleftrightarrow>
    (\<exists>e \<in> set (table d ! unat (hash_function cs k)). mem h (key e) = Some k)"
proof
  assume "present h d k"
  then obtain x where x: "x \<in> set (entries d)" "mem h (key x) = Some k"
    by (auto simp: present_def)
  then obtain j where j: "j < length (table d)" "x \<in> set (table d ! j)"
    using entries_bucket by blast
  with assms x have "unat (hash_function cs k) = j"
    by (auto dest: buckets_okD)
  with x j show "\<exists>e \<in> set (table d ! unat (hash_function cs k)). mem h (key e) = Some k"
    by auto
next
  assume "\<exists>e \<in> set (table d ! unat (hash_function cs k)). mem h (key e) = Some k"
  then obtain e where e: "e \<in> set (table d ! unat (hash_function cs k))" "mem h (key e) = Some k"
    by blast
  have "unat (hash_function cs k) < length (table d)"
    using assms hash_function_less [of cs k] by simp
  with e have "e \<in> set (entries d)"
    by (auto intro: in_entries)
  with e show "present h d k"
    by (force simp: present_def)
qed

section \<open>Replacing a value in place\<close>

lemma store_ok_update:
  assumes ok: "store_ok cs h d"
    and i: "i < length (table d)"
    and split: "table d ! i = pre @ e # post"
    and fresh: "mem h p = None" "p \<noteq> NULL"
    and h': "mem h' = (mem h)(p \<mapsto> v, value e := None)"
  shows "store_ok cs h' (d\<lparr>table := (table d)[i := pre @ e\<lparr>value := p\<rparr> # post]\<rparr>)"
proof -
  let ?A = "concat (take i (table d))" and ?B = "concat (drop (Suc i) (table d))"
  let ?e' = "e\<lparr>value := p\<rparr>"
  let ?d' = "d\<lparr>table := (table d)[i := pre @ ?e' # post]\<rparr>"
  have hok: "heap_ok h d" and cok: "count_ok d" and kok: "keys_unique h d" and bok: "buckets_ok cs h d"
    using ok by (simp_all add: store_ok_def)
  note H = heap_okD [OF hok]
  have E: "entries d = ?A @ pre @ e # post @ ?B"
    using concat_split [OF i] split by (simp add: entries_def)
  have E': "entries ?d' = ?A @ pre @ ?e' # post @ ?B"
    using concat_update [OF i] by (simp add: entries_def)
  have e_in: "e \<in> set (entries d)"
    by (simp add: E)
  have p_notin: "p \<notin> set (pointers d)"
    using hok fresh by (auto simp: heap_ok_def)
  have ve: "value e \<in> set (pointers d)"
    using e_in by (simp add: pointers_def value_in_pointers)
  have p_ve: "p \<noteq> value e"
    using p_notin ve by auto
  have keys_same: "mem h' (key x) = mem h (key x)" if "x \<in> set (entries d)" for x
  proof -
    have "key x \<in> set (pointers d)"
      using that by (simp add: pointers_def key_in_pointers)
    then have "key x \<noteq> p"
      using p_notin by auto
    moreover have "key x \<noteq> value e"
      using H(2) that e_in by (rule key_neq_value)
    ultimately show ?thesis
      by (simp add: h')
  qed
  have heap: "heap_ok h' ?d'"
  proof -
    have d: "distinct (pointers ?d')"
      using H(2) p_notin by (auto simp: pointers_def E E')
    have "q \<noteq> NULL \<and> mem h' q \<noteq> None" if "q \<in> set (pointers ?d')" for q
    proof (cases "q = p")
      case True
      then show ?thesis using fresh p_ve by (simp add: h')
    next
      case False
      with that have q: "q \<in> set (pointers d)"
        by (auto simp: pointers_def E E')
      have "value e \<notin> set (pointers ?d')"
        using H(2) p_ve by (auto simp: pointers_def E E')
      with that have "q \<noteq> value e"
        by auto
      with q hok False show ?thesis
        by (auto simp: heap_ok_def h')
    qed
    with d H(1) show ?thesis
      by (simp add: heap_ok_def)
  qed
  have cnt: "count_ok ?d'"
    using cok by (simp add: count_ok_def E E')
  have "map (\<lambda>x. mem h' (key x)) (entries ?d') = map (\<lambda>x. mem h (key x)) (entries d)"
    using keys_same by (simp add: E E')
  then have uniq: "keys_unique h' ?d'"
    using kok by (simp add: keys_unique_def)
  have bk: "buckets_ok cs h' ?d'"
    unfolding buckets_ok_def
  proof (intro ballI)
    fix j x
    assume j: "j \<in> set [0..<length (table ?d')]" and x: "x \<in> set (table ?d' ! j)"
    then have jl: "j < length (table d)" by simp
    obtain y where y: "y \<in> set (table d ! j)" "key x = key y"
    proof (cases "j = i")
      case True
      with x i have "x \<in> set (pre @ ?e' # post)" by simp
      then have "\<exists>y \<in> set (pre @ e # post). key x = key y" by auto
      with True split that show ?thesis by auto
    next
      case False
      with x that show ?thesis by auto
    qed
    have yin: "y \<in> set (entries d)"
      using jl y(1) by (rule in_entries)
    then have "mem h' (key x) = mem h (key y)"
      using keys_same y(2) by simp
    moreover obtain k where "mem h (key y) = Some k"
      using H(3) [OF yin] by auto
    moreover from this have "unat (hash_function cs k) = j"
      using bok jl y(1) by (auto dest: buckets_okD)
    ultimately show "case mem h' (key x) of None \<Rightarrow> False | Some k \<Rightarrow> unat (hash_function cs k) = j"
      by simp
  qed
  from heap cnt uniq bk show ?thesis
    by (simp add: store_ok_def)
qed

section \<open>Inserting a new entry\<close>

lemma absent_everywhere:
  assumes bok: "buckets_ok cs h d" and len: "length (table d) = HASH_TABLE_SIZE"
    and nomatch: "\<forall>x \<in> set (table d ! unat (hash_function cs k)). mem h (key x) \<noteq> Some k"
  shows "\<not> present h d k"
  using present_bucket [OF bok len, of k] nomatch by blast

lemma store_ok_insert:
  assumes ok: "store_ok cs h d"
    and i: "i = unat (hash_function cs k)"
    and nomatch: "\<forall>x \<in> set (table d ! i). mem h (key x) \<noteq> Some k"
    and fresh: "kp \<noteq> NULL" "vp \<noteq> NULL" "kp \<noteq> vp" "mem h kp = None" "mem h vp = None"
    and h': "mem h' = (mem h)(kp \<mapsto> k, vp \<mapsto> v)"
  shows "store_ok cs h'
           (d\<lparr>table := (table d)[i := \<lparr>key = kp, value = vp\<rparr> # table d ! i], count := count d + 1\<rparr>)"
proof -
  let ?A = "concat (take i (table d))" and ?B = "concat (drop (Suc i) (table d))"
  let ?new = "\<lparr>key = kp, value = vp\<rparr>"
  let ?d' = "d\<lparr>table := (table d)[i := ?new # table d ! i], count := count d + 1\<rparr>"
  have hok: "heap_ok h d" and cok: "count_ok d" and kok: "keys_unique h d" and bok: "buckets_ok cs h d"
    using ok by (simp_all add: store_ok_def)
  note H = heap_okD [OF hok]
  have il: "i < length (table d)"
    using hash_function_less [of cs k] H(1) i by simp
  have E: "entries d = ?A @ table d ! i @ ?B"
    using concat_split [OF il] by (simp add: entries_def)
  have E': "entries ?d' = ?A @ ?new # table d ! i @ ?B"
    using concat_update [OF il] by (simp add: entries_def)
  have notin: "kp \<notin> set (pointers d)" "vp \<notin> set (pointers d)"
    using hok fresh by (auto simp: heap_ok_def)
  have keys_same: "mem h' (key x) = mem h (key x)" if "x \<in> set (entries d)" for x
  proof -
    have "key x \<in> set (pointers d)"
      using that by (simp add: pointers_def key_in_pointers)
    then have "key x \<noteq> kp" "key x \<noteq> vp"
      using notin by auto
    then show ?thesis
      by (simp add: h')
  qed
  have new_key: "mem h' kp = Some k"
    using fresh by (simp add: h')
  have heap: "heap_ok h' ?d'"
  proof -
    have P': "pointers ?d' = chain_pointers ?A @ kp # vp # chain_pointers (table d ! i) @ chain_pointers ?B"
      by (simp add: pointers_def E')
    have P: "pointers d = chain_pointers ?A @ chain_pointers (table d ! i) @ chain_pointers ?B"
      by (simp add: pointers_def E)
    have dist: "distinct (pointers ?d')"
      using H(2) notin fresh(3) unfolding P P' pointers_def [symmetric] by auto
    have "q \<noteq> NULL \<and> mem h' q \<noteq> None" if "q \<in> set (pointers ?d')" for q
    proof (cases "q = kp \<or> q = vp")
      case True
      then show ?thesis using fresh by (auto simp: h')
    next
      case False
      with that have "q \<in> set (pointers d)"
        unfolding P P' by auto
      with hok False show ?thesis
        by (auto simp: heap_ok_def h')
    qed
    with dist H(1) show ?thesis
      by (simp add: heap_ok_def)
  qed
  have cnt: "count_ok ?d'"
  proof -
    have "2 * length (entries ?d') < 2 ^ 64"
      using heap by (rule entries_bound)
    then have b: "unat (count d) + 1 < 2 ^ 64"
      using cok by (simp add: count_ok_def E E')
    have "unat (count d + 1) = unat (count d) + unat (1 :: 64 word)"
      using b by (subst unat_add_lem [symmetric]) simp
    then show ?thesis
      using cok by (simp add: count_ok_def E E')
  qed
  have "\<not> present h d k"
    using bok H(1) nomatch unfolding i by (rule absent_everywhere)
  then have nk: "Some k \<notin> set (map (\<lambda>x. mem h (key x)) (entries d))"
    by (simp add: present_def)
  have M: "map (\<lambda>x. mem h' (key x)) (entries d) = map (\<lambda>x. mem h (key x)) (entries d)"
    using keys_same by simp
  have uniq: "keys_unique h' ?d'"
  proof -
    have "distinct (map (\<lambda>x. mem h' (key x)) (entries d))"
      using kok by (simp add: M keys_unique_def)
    moreover have "Some k \<notin> set (map (\<lambda>x. mem h' (key x)) (entries d))"
      using nk by (simp only: M not_False_eq_True)
    ultimately show ?thesis
      unfolding keys_unique_def E E' using new_key by auto
  qed
  have bk: "buckets_ok cs h' ?d'"
    unfolding buckets_ok_def
  proof (intro ballI)
    fix j x
    assume j: "j \<in> set [0..<length (table ?d')]" and x: "x \<in> set (table ?d' ! j)"
    then have jl: "j < length (table d)" by simp
    show "case mem h' (key x) of None \<Rightarrow> False | Some k \<Rightarrow> unat (hash_function cs k) = j"
    proof (cases "j = i \<and> x = ?new")
      case True
      then show ?thesis using new_key i by simp
    next
      case False
      with x il have xin: "x \<in> set (table d ! j)"
        by (cases "j = i") auto
      then have yin: "x \<in> set (entries d)"
        using jl by (auto intro: in_entries)
      obtain k' where k': "mem h (key x) = Some k'"
        using H(3) [OF yin] by auto
      then have "unat (hash_function cs k') = j"
        using bok jl xin by (auto dest: buckets_okD)
      with k' keys_same [OF yin] show ?thesis by simp
    qed
  qed
  from heap cnt uniq bk show ?thesis
    by (simp add: store_ok_def)
qed

section \<open>Unlinking an entry\<close>

lemma store_ok_delete:
  assumes ok: "store_ok cs h d"
    and i: "i < length (table d)"
    and split: "table d ! i = pre @ e # post"
    and h': "mem h' = (mem h)(key e := None, value e := None)"
  shows "store_ok cs h' (d\<lparr>table := (table d)[i := pre @ post], count := count d - 1\<rparr>)"
proof -
  let ?A = "concat (take i (table d))" and ?B = "concat (drop (Suc i) (table d))"
  let ?d' = "d\<lparr>table := (table d)[i := pre @ post], count := count d - 1\<rparr>"
  have hok: "heap_ok h d" and cok: "count_ok d" and kok: "keys_unique h d" and bok: "buckets_ok cs h d"
    using ok by (simp_all add: store_ok_def)
  note H = heap_okD [OF hok]
  have E: "entries d = ?A @ pre @ e # post @ ?B"
    using concat_split [OF i] split by (simp add: entries_def)
  have E': "entries ?d' = ?A @ pre @ post @ ?B"
    using concat_update [OF i] by (simp add: entries_def)
  have sub: "set (entries ?d') \<subseteq> set (entries d)"
    by (auto simp: E E')
  have gone: "key e \<notin> set (pointers ?d')" "value e \<notin> set (pointers ?d')"
    using H(2) by (auto simp: pointers_def E E')
  have dist: "distinct (pointers ?d')"
    using H(2) by (auto simp: pointers_def E E')
  have same: "mem h' q = mem h q" if "q \<in> set (pointers ?d')" for q
    using that gone by (auto simp: h')
  have keys_same: "mem h' (key x) = mem h (key x)" if "x \<in> set (entries ?d')" for x
    using that by (intro same) (simp add: pointers_def key_in_pointers)
  have heap: "heap_ok h' ?d'"
  proof -
    have "q \<noteq> NULL \<and> mem h' q \<noteq> None" if "q \<in> set (pointers ?d')" for q
    proof -
      from that have "q \<in> set (pointers d)"
        by (auto simp: pointers_def E E')
      with hok same [OF that] show ?thesis
        by (auto simp: heap_ok_def)
    qed
    with dist H(1) show ?thesis
      by (simp add: heap_ok_def)
  qed
  have cnt: "count_ok ?d'"
  proof -
    have n: "unat (count d) = Suc (length (entries ?d'))"
      using cok by (simp add: count_ok_def E E')
    then have "count d \<noteq> 0"
      by auto
    then have "unat (count d - 1) = unat (count d) - 1"
      by (rule unat_minus_one)
    with n show ?thesis
      by (simp add: count_ok_def E')
  qed
  have M: "map (\<lambda>x. mem h' (key x)) (entries ?d') = map (\<lambda>x. mem h (key x)) (entries ?d')"
    using keys_same by simp
  have "distinct (map (\<lambda>x. mem h (key x)) (entries ?d'))"
    using kok unfolding keys_unique_def E E' by auto
  then have uniq: "keys_unique h' ?d'"
    unfolding keys_unique_def M .
  have bk: "buckets_ok cs h' ?d'"
    unfolding buckets_ok_def
  proof (intro ballI)
    fix j x
    assume j: "j \<in> set [0..<length (table ?d')]" and x: "x \<in> set (table ?d' ! j)"
    then have jl: "j < length (table d)" by simp
    have xin: "x \<in> set (table d ! j)"
      using x i split by (cases "j = i") auto
    have xin': "x \<in> set (entries ?d')"
      using in_entries [of j ?d' x] jl x by simp
    then have yin: "x \<in> set (entries d)"
      using sub by auto
    obtain k' where k': "mem h (key x) = Some k'"
      using H(3) [OF yin] by auto
    then have "unat (hash_function cs k') = j"
      using bok jl xin by (auto dest: buckets_okD)
    with k' keys_same [OF xin'] show
      "case mem h' (key x) of None \<Rightarrow> False | Some k \<Rightarrow> unat (hash_function cs k) = j"
      by simp
  qed
  from heap cnt uniq bk show ?thesis
    by (simp add: store_ok_def)
qed

section \<open>The empty table\<close>

lemma entries_empty [simp]: "entries (d\<lparr>table := replicate n [], count := c\<rparr>) = []"
  by (simp add: entries_def)

lemma store_ok_empty:
  "store_ok cs h (d\<lparr>table := replicate HASH_TABLE_SIZE [], count := 0\<rparr>)"
  by (simp add: store_ok_def heap_ok_def count_ok_def keys_unique_def buckets_ok_def pointers_def)

lemma clear_fold:
  "m \<le> length t \<Longrightarrow>
   fold (\<lambda>i (h', t'). (free_chain h' (t' ! i), t'[i := []])) [0..<m] (h, t) =
     (fold (\<lambda>c h'. free_chain h' c) (take m t) h, replicate m [] @ drop m t)"
proof (induction m)
  case 0
  then show ?case by simp
next
  case (Suc m)
  then have m: "m < length t" by simp
  have nth: "(replicate m [] @ drop m t) ! m = t ! m"
    using m by (simp add: nth_append)
  have upd: "(replicate m [] @ drop m t)[m := []] = replicate (Suc m) [] @ drop (Suc m) t"
    using m by (simp add: list_update_append replicate_append_same Cons_nth_drop_Suc [symmetric])
  from Suc m show ?case
    by (simp add: nth upd take_Suc_conv_app_nth)
qed

lemma db_clear_eq:
  "length (table d) = HASH_TABLE_SIZE \<Longrightarrow>
   db_clear h (Some d) =
     (fold (\<lambda>c h'. free_chain h' c) (table d) h,
      Some (d\<lparr>table := replicate HASH_TABLE_SIZE [], count := 0\<rparr>))"
  using clear_fold [of HASH_TABLE_SIZE "table d" h] by (simp add: db_clear_def)

section \<open>What \<open>db_set\<close> computes\<close>

lemma db_set_invalid:
  "MAX_KEY_LENGTH \<le> strlen k \<or> MAX_VALUE_LENGTH \<le> strlen v \<Longrightarrow>
   db_set cs h db (Some k) (Some v) = (False, h, db)"
  by (cases db) (simp_all add: db_set_def)

lemma table_same [simp]: "d\<lparr>table := (table d)[i := table d ! i]\<rparr> = d"
  by simp

lemma db_set_present:
  assumes valid: "strlen k < MAX_KEY_LENGTH" "strlen v < MAX_VALUE_LENGTH"
    and split: "table d ! unat (hash_function cs k) = pre @ e # post"
    and pre: "\<forall>x \<in> set pre. mem h (key x) \<noteq> Some k" and e: "mem h (key e) = Some k"
    and dup: "strdup h v = (p, h1)"
  shows "db_set cs h (Some d) (Some k) (Some v) =
           (if p = NULL then (False, h1, Some d)
            else (True, free h1 (value e),
                  Some (d\<lparr>table := (table d)[unat (hash_function cs k) := pre @ e\<lparr>value := p\<rparr> # post]\<rparr>)))"
proof -
  have "set_loop h k v (table d ! unat (hash_function cs k)) =
      (if p = NULL then Some (False, h1, pre @ e # post)
       else Some (True, free h1 (value e), pre @ e\<lparr>value := p\<rparr> # post))"
    unfolding split using set_loop_match [OF pre e, of v post] dup by simp
  moreover have "d\<lparr>table := (table d)[unat (hash_function cs k) := pre @ e # post]\<rparr> = d"
    using table_same [of d "unat (hash_function cs k)"] unfolding split .
  ultimately show ?thesis
    using valid by (simp add: db_set_def Let_def)
qed

lemma db_set_absent:
  assumes valid: "strlen k < MAX_KEY_LENGTH" "strlen v < MAX_VALUE_LENGTH"
    and nomatch: "\<forall>x \<in> set (table d ! unat (hash_function cs k)). mem h (key x) \<noteq> Some k"
    and new: "create_entry h k v = (r, h')"
  shows "db_set cs h (Some d) (Some k) (Some v) =
           (case r of
              None \<Rightarrow> (False, h', Some d)
            | Some new_entry \<Rightarrow>
                (True, h',
                 Some (d\<lparr>table := (table d)[unat (hash_function cs k) :=
                                    new_entry # table d ! unat (hash_function cs k)],
                         count := count d + 1\<rparr>)))"
  using valid new set_loop_no_match [OF nomatch, of v]
  by (simp add: db_set_def Let_def split: option.splits)

lemma chain_cases:
  obtains (absent) "\<forall>x \<in> set chain. mem h (key x) \<noteq> Some k"
  | (present) pre e post where "chain = pre @ e # post"
      "\<forall>x \<in> set pre. mem h (key x) \<noteq> Some k" "mem h (key e) = Some k"
  using first_match [of chain h k] by blast

section \<open>A failed \<open>db_set\<close>\<close>

lemma db_set_False:
  assumes "db_set cs h db k v = (False, h', db')"
  shows "db' = db \<and> mem h' = mem h"
proof (cases "\<exists>d k' v'. db = Some d \<and> k = Some k' \<and> v = Some v'")
  case False
  then have "db_set cs h db k v = (False, h, db)"
    by (auto simp: db_set_def split: option.splits)
  with assms show ?thesis by simp
next
  case True
  then obtain d k' v' where a: "db = Some d" "k = Some k'" "v = Some v'"
    by blast
  show ?thesis
  proof (cases "MAX_KEY_LENGTH \<le> strlen k' \<or> MAX_VALUE_LENGTH \<le> strlen v'")
    case True
    then have "db_set cs h db k v = (False, h, db)"
      unfolding a by (rule db_set_invalid)
    with assms show ?thesis by simp
  next
    case False
    then have valid: "strlen k' < MAX_KEY_LENGTH" "strlen v' < MAX_VALUE_LENGTH"
      by simp_all
    let ?i = "unat (hash_function cs k')"
    show ?thesis
    proof (cases "table d ! ?i" h k' rule: chain_cases)
      case absent
      obtain r h2 where c: "create_entry h k' v' = (r, h2)"
        by (cases "create_entry h k' v'")
      from assms db_set_absent [OF valid absent c] create_entry_cases [OF c]
      show ?thesis
        unfolding a by (auto split: option.splits)
    next
      case (present pre e post)
      obtain p h1 where s: "strdup h v' = (p, h1)"
        by (cases "strdup h v'")
      from assms db_set_present [OF valid present s] strdup_cases [OF s]
      show ?thesis
        unfolding a by (auto split: if_splits)
    qed
  qed
qed

section \<open>What \<open>db_get\<close> and \<open>db_delete\<close> compute\<close>

lemma db_get_absent:
  "\<forall>x \<in> set (table d ! unat (hash_function cs k)). mem h (key x) \<noteq> Some k \<Longrightarrow>
   db_get cs h (Some d) (Some k) = NULL"
  by (simp add: db_get_def get_loop_no_match)

lemma db_get_present:
  "table d ! unat (hash_function cs k) = pre @ e # post \<Longrightarrow>
   \<forall>x \<in> set pre. mem h (key x) \<noteq> Some k \<Longrightarrow> mem h (key e) = Some k \<Longrightarrow>
   db_get cs h (Some d) (Some k) = value e"
  by (simp add: db_get_def get_loop_match)

lemma db_delete_absent:
  "\<forall>x \<in> set (table d ! unat (hash_function cs k)). mem h (key x) \<noteq> Some k \<Longrightarrow>
   db_delete cs h (Some d) (Some k) = (False, h, Some d)"
  by (simp add: db_delete_def delete_loop_no_match)

lemma db_delete_present:
  "table d ! unat (hash_function cs k) = pre @ e # post \<Longrightarrow>
   \<forall>x \<in> set pre. mem h (key x) \<noteq> Some k \<Longrightarrow> mem h (key e) = Some k \<Longrightarrow>
   db_delete cs h (Some d) (Some k) =
     (True, free_entry h e,
      Some (d\<lparr>table := (table d)[unat (hash_function cs k) := pre @ post], count := count d - 1\<rparr>))"
  by (simp add: db_delete_def delete_loop_match)

lemma mem_free_entry:
  "key e \<noteq> NULL \<Longrightarrow> value e \<noteq> NULL \<Longrightarrow>
   mem (free_entry h e) = (mem h)(key e := None, value e := None)"
  by (simp add: free_entry_def mem_free)

section \<open>Every operation keeps the invariants\<close>

lemma index_less: "heap_ok h d \<Longrightarrow> unat (hash_function cs k) < length (table d)"
  using hash_function_less [of cs k] by (simp add: heap_ok_def)

lemma split_in_entries:
  "i < length (table d) \<Longrightarrow> table d ! i = pre @ e # post \<Longrightarrow> e \<in> set (entries d)"
  using in_entries [of i d e] by simp

lemma db_set_store_ok:
  assumes ok: "store_ok cs h d" and set: "db_set cs h (Some d) k v = (r, h', db')"
  shows "\<exists>d'. db' = Some d' \<and> store_ok cs h' d'"
proof (cases r)
  case False
  with set have "db' = Some d \<and> mem h' = mem h"
    by (auto dest: db_set_False)
  with ok show ?thesis
    by (simp add: store_ok_def heap_ok_def keys_unique_def buckets_ok_def)
next
  case True
  with set obtain k' v' where a: "k = Some k'" "v = Some v'"
    by (cases k; cases v) (auto simp: db_set_def)
  have valid: "strlen k' < MAX_KEY_LENGTH" "strlen v' < MAX_VALUE_LENGTH"
    using set True db_set_invalid [of k' v' cs h "Some d"] unfolding a
    by (auto simp: not_le [symmetric])
  have hok: "heap_ok h d"
    using ok by (simp add: store_ok_def)
  let ?i = "unat (hash_function cs k')"
  have il: "?i < length (table d)"
    using hok by (rule index_less)
  show ?thesis
  proof (cases "table d ! ?i" h k' rule: chain_cases)
    case absent
    obtain r2 h2 where c: "create_entry h k' v' = (r2, h2)"
      by (cases "create_entry h k' v'")
    from set True db_set_absent [OF valid absent c] create_entry_cases [OF c]
    obtain kp vp where n: "kp \<noteq> NULL" "vp \<noteq> NULL" "kp \<noteq> vp" "mem h kp = None" "mem h vp = None"
      "mem h' = (mem h)(kp \<mapsto> k', vp \<mapsto> v')"
      "db' = Some (d\<lparr>table := (table d)[?i := \<lparr>key = kp, value = vp\<rparr> # table d ! ?i],
                      count := count d + 1\<rparr>)"
      unfolding a by (auto split: option.splits)
    from store_ok_insert [OF ok refl absent n(1-6)] n(7) show ?thesis
      by simp
  next
    case (present pre e post)
    obtain p h1 where s: "strdup h v' = (p, h1)"
      by (cases "strdup h v'")
    have ein: "e \<in> set (entries d)"
      using il present(1) by (rule split_in_entries)
    then have ve: "value e \<noteq> NULL"
      using heap_okD(3) [OF hok] by blast
    from set True db_set_present [OF valid present s] strdup_cases [OF s]
    have n: "p \<noteq> NULL" "mem h p = None" "mem h1 = (mem h)(p \<mapsto> v')" "h' = free h1 (value e)"
      "db' = Some (d\<lparr>table := (table d)[?i := pre @ e\<lparr>value := p\<rparr> # post]\<rparr>)"
      unfolding a by (auto split: if_splits)
    have "mem h' = (mem h)(p \<mapsto> v', value e := None)"
      using n(3,4) ve by (simp add: mem_free)
    from store_ok_update [OF ok il present(1) n(2,1) this] n(5) show ?thesis
      by simp
  qed
qed

lemma db_delete_store_ok:
  assumes ok: "store_ok cs h d" and del: "db_delete cs h (Some d) k = (r, h', db')"
  shows "\<exists>d'. db' = Some d' \<and> store_ok cs h' d'"
proof (cases k)
  case None
  with del ok show ?thesis
    by (auto simp: db_delete_def)
next
  case (Some k')
  have hok: "heap_ok h d"
    using ok by (simp add: store_ok_def)
  let ?i = "unat (hash_function cs k')"
  have il: "?i < length (table d)"
    using hok by (rule index_less)
  show ?thesis
  proof (cases "table d ! ?i" h k' rule: chain_cases)
    case absent
    with del ok show ?thesis
      unfolding Some by (auto simp: db_delete_absent)
  next
    case (present pre e post)
    have ein: "e \<in> set (entries d)"
      using il present(1) by (rule split_in_entries)
    then have "key e \<noteq> NULL" "value e \<noteq> NULL"
      using heap_okD(3) [OF hok] by blast+
    then have m: "mem (free_entry h e) = (mem h)(key e := None, value e := None)"
      by (rule mem_free_entry)
    from del db_delete_present [OF present] have
      "h' = free_entry h e"
      "db' = Some (d\<lparr>table := (table d)[?i := pre @ post], count := count d - 1\<rparr>)"
      unfolding Some by simp_all
    with store_ok_delete [OF ok il present(1) m] show ?thesis
      by simp
  qed
qed

lemma db_clear_store_ok:
  assumes ok: "store_ok cs h d" and clr: "db_clear h (Some d) = (h', db')"
  shows "\<exists>d'. db' = Some d' \<and> store_ok cs h' d'"
proof -
  have "length (table d) = HASH_TABLE_SIZE"
    using ok by (simp add: store_ok_def heap_ok_def)
  from db_clear_eq [OF this, of h] clr show ?thesis
    by (auto simp: store_ok_empty)
qed

lemma db_keys_mem: "db_keys h db cnt = (ks, c, h') \<Longrightarrow> mem h' = mem h"
  by (auto simp: db_keys_def split: option.splits if_splits prod.splits dest: malloc_mem)

lemma store_ok_mem: "store_ok cs h d \<Longrightarrow> mem h' = mem h \<Longrightarrow> store_ok cs h' d"
  by (simp add: store_ok_def heap_ok_def keys_unique_def buckets_ok_def)

lemma db_create_store_ok:
  assumes "db_create h = (Some d, h')"
  shows "store_ok cs h' d"
proof -
  from assms have "d = \<lparr>table = replicate HASH_TABLE_SIZE [], count = 0\<rparr>"
    by (auto simp: db_create_def split: prod.splits if_splits)
  then have "d = d\<lparr>table := replicate HASH_TABLE_SIZE [], count := 0\<rparr>"
    by simp
  then show ?thesis
    using store_ok_empty [of cs h' d] by simp
qed

section \<open>Every store a caller can hold satisfies the invariants\<close>

lemma store_ok_frame:
  assumes ok: "store_ok cs h d" and same: "\<forall>p \<in> set (pointers d). mem h' p = mem h p"
  shows "store_ok cs h' d"
proof -
  have hok: "heap_ok h d" and cok: "count_ok d" and kok: "keys_unique h d" and bok: "buckets_ok cs h d"
    using ok by (simp_all add: store_ok_def)
  have keys_same: "mem h' (key x) = mem h (key x)" if "x \<in> set (entries d)" for x
    using that same by (simp add: pointers_def key_in_pointers)
  have heap: "heap_ok h' d"
    using hok same by (simp add: heap_ok_def)
  have M: "map (\<lambda>x. mem h' (key x)) (entries d) = map (\<lambda>x. mem h (key x)) (entries d)"
    using keys_same by simp
  have uniq: "keys_unique h' d"
    using kok unfolding keys_unique_def M .
  have bk: "buckets_ok cs h' d"
    unfolding buckets_ok_def
  proof (intro ballI)
    fix j x
    assume "j \<in> set [0..<length (table d)]" and x: "x \<in> set (table d ! j)"
    then have jl: "j < length (table d)" by simp
    then have xin: "x \<in> set (entries d)"
      using x by (rule in_entries)
    obtain k where k: "mem h (key x) = Some k"
      using heap_okD(3) [OF hok xin] by auto
    then have "unat (hash_function cs k) = j"
      using bok jl x by (auto dest: buckets_okD)
    with k keys_same [OF xin] show
      "case mem h' (key x) of None \<Rightarrow> False | Some k \<Rightarrow> unat (hash_function cs k) = j"
      by simp
  qed
  from heap cok uniq bk show ?thesis
    by (simp add: store_ok_def)
qed

lemma reachable_store_ok: "reachable cs h d \<Longrightarrow> store_ok cs h d"
proof (induction rule: reachable.induct)
  case (created h d h')
  then show ?case by (rule db_create_store_ok)
next
  case (after_set h d k v r h' d')
  then show ?case using db_set_store_ok by blast
next
  case (after_delete h d k r h' d')
  then show ?case using db_delete_store_ok by blast
next
  case (after_clear h d h' d')
  then show ?case using db_clear_store_ok by blast
next
  case (after_keys h d cnt ks c h')
  then show ?case using db_keys_mem store_ok_mem by blast
next
  case (elsewhere h d h')
  then show ?case using store_ok_frame by blast
qed

section \<open>The example stores\<close>

lemma hash_a: "unat (hash_function False ''a'') = 518"
  by (simp add: hash_function_def char_int_def HASH_TABLE_SIZE_def)

lemma store_ok_db0: "store_ok cs heap0 db0"
  using store_ok_empty [of cs heap0 db0] by (simp add: db0_def)

lemma set_a: "db_set False heap0 (Some db0) (Some ''a'') (Some ''1'') = (True, heap1, Some db1)"
  by (simp add: db_set_def hash_a db0_def db1_def heap0_def heap1_def HASH_TABLE_SIZE_def
      strlen_def MAX_KEY_LENGTH_def MAX_VALUE_LENGTH_def create_entry_def malloc_def strdup_def
      NULL_def)

lemma store_ok_db1: "store_ok False heap1 db1"
  using db_set_store_ok [OF store_ok_db0 set_a] by simp

lemma bucket_a: "table db1 ! 518 = [] @ \<lparr>key = 32, value = 48\<rparr> # []"
  by (simp add: db1_def HASH_TABLE_SIZE_def)

lemma entries_db1: "entries db1 = [\<lparr>key = 32, value = 48\<rparr>]"
proof -
  have "entries db1 = concat ((replicate HASH_TABLE_SIZE [])[518 := [\<lparr>key = 32, value = 48\<rparr>]])"
    by (simp add: entries_def db1_def)
  also have "\<dots> = [\<lparr>key = 32, value = 48\<rparr>]"
    by (subst concat_update) (simp_all add: HASH_TABLE_SIZE_def)
  finally show ?thesis .
qed

section \<open>Arguments, failures and invariants\<close>

text \<open>
  Claim C1, as amended. A key longer than the maximum key length (256 bytes) or a value
  longer than the maximum value length (4096 bytes) makes \<open>db_set\<close> return false and
  leave the store, table and memory, unchanged. (The code already refuses a key of
  exactly 256 bytes and a value of exactly 4096 bytes; it has no check for an empty
  key, which is stored like any other.)
\<close>

theorem db_set_rejects_long:
  "MAX_KEY_LENGTH = 256 \<and> MAX_VALUE_LENGTH = 4096 \<and>
   (256 < strlen k \<or> 4096 < strlen v \<longrightarrow> db_set cs h db (Some k) (Some v) = (False, h, db))"
  using db_set_invalid [of k v cs h db]
  by (auto simp: MAX_KEY_LENGTH_def MAX_VALUE_LENGTH_def strlen_def)

theorem db_set_rejects_long_witness:
  "256 < strlen (replicate 257 CHR ''k'')
   \<and> db_set False heap0 (Some db0) (Some (replicate 257 CHR ''k'')) (Some ''1'')
       = (False, heap0, Some db0)"
  using db_set_rejects_long [of "replicate 257 CHR ''k''" "''1''" False heap0 "Some db0"]
  by (simp add: strlen_def)

text \<open>
  The claim as stated fails for the empty key: on the empty store, with memory
  available, \<^verbatim>\<open>db_set(db, "", "1")\<close> returns true and the store then counts one entry.
\<close>

theorem db_set_empty_key_accepted:
  "store_ok False heap0 db0
   \<and> fst (db_set False heap0 (Some db0) (Some '''') (Some ''1'')) = True
   \<and> db_count (snd (snd (db_set False heap0 (Some db0) (Some '''') (Some ''1'')))) = 1"
proof -
  have "db_set False heap0 (Some db0) (Some '''') (Some ''1'') =
      (True, \<lparr>mem = (\<lambda>p. None)(32 \<mapsto> '''', 48 \<mapsto> ''1''), pending = [64, 80, 96]\<rparr>,
       Some \<lparr>table = (replicate HASH_TABLE_SIZE [])[261 := [\<lparr>key = 32, value = 48\<rparr>]], count = 1\<rparr>)"
    by (simp add: db_set_def hash_function_def db0_def heap0_def HASH_TABLE_SIZE_def
        strlen_def MAX_KEY_LENGTH_def MAX_VALUE_LENGTH_def create_entry_def malloc_def strdup_def
        NULL_def)
  then show ?thesis
    using store_ok_db0 [of False] by (simp add: db_count_def)
qed

text \<open>
  Claim C5. \<open>store_ok\<close> is the conjunction of the three invariants of the data model
  (\<open>count_ok\<close>: the counter equals the number of entries reached by walking every
  chain; \<open>keys_unique\<close>: no key occurs in two entries of the table; \<open>buckets_ok\<close>:
  every entry lies in the bucket that the hash function gives for its key) and of the
  memory's representation invariant \<open>heap_ok\<close>. Whatever their arguments and whatever
  they return, \<open>db_set\<close>, \<open>db_delete\<close> and \<open>db_clear\<close> take a store that
  satisfies it to one that does, and so does \<open>db_keys\<close>, the one reading operation
  that touches the heap (it allocates the array). \<open>db_get\<close>, \<open>db_exists\<close>,
  \<open>db_count\<close> and \<open>db_stats\<close> write nothing: they return a result and no state.
  Since \<open>db_create\<close> establishes \<open>store_ok\<close>, every store a caller can hold
  satisfies it (\<open>reachable_store_ok\<close>).
\<close>

theorem store_invariants_preserved:
  assumes "store_ok cs h d"
  shows "(\<forall>k v r h' db'. db_set cs h (Some d) k v = (r, h', db') \<longrightarrow>
            (\<exists>d'. db' = Some d' \<and> heap_ok h' d' \<and> count_ok d' \<and> keys_unique h' d' \<and> buckets_ok cs h' d'))
       \<and> (\<forall>k r h' db'. db_delete cs h (Some d) k = (r, h', db') \<longrightarrow>
            (\<exists>d'. db' = Some d' \<and> heap_ok h' d' \<and> count_ok d' \<and> keys_unique h' d' \<and> buckets_ok cs h' d'))
       \<and> (\<forall>h' db'. db_clear h (Some d) = (h', db') \<longrightarrow>
            (\<exists>d'. db' = Some d' \<and> heap_ok h' d' \<and> count_ok d' \<and> keys_unique h' d' \<and> buckets_ok cs h' d'))
       \<and> (\<forall>cnt ks c h'. db_keys h (Some d) cnt = (ks, c, h') \<longrightarrow>
            heap_ok h' d \<and> count_ok d \<and> keys_unique h' d \<and> buckets_ok cs h' d)"
  using assms db_set_store_ok [of cs h d] db_delete_store_ok [of cs h d]
    db_clear_store_ok [of cs h d] db_keys_mem [of h "Some d"] store_ok_mem [of cs h d]
  unfolding store_ok_def [symmetric] by blast

theorem store_invariants_preserved_witness:
  "store_ok False heap0 db0
   \<and> db_set False heap0 (Some db0) (Some ''a'') (Some ''1'') = (True, heap1, Some db1)
   \<and> heap_ok heap1 db1 \<and> count_ok db1 \<and> keys_unique heap1 db1 \<and> buckets_ok False heap1 db1"
proof -
  have "\<forall>k v r h' db'. db_set False heap0 (Some db0) k v = (r, h', db') \<longrightarrow>
      (\<exists>d'. db' = Some d' \<and> heap_ok h' d' \<and> count_ok d' \<and> keys_unique h' d' \<and> buckets_ok False h' d')"
    using store_invariants_preserved [OF store_ok_db0, of False] by (rule conjunct1)
  with set_a have "\<exists>d'. Some db1 = Some d' \<and> heap_ok heap1 d' \<and> count_ok d' \<and>
      keys_unique heap1 d' \<and> buckets_ok False heap1 d'"
    by blast
  then show ?thesis
    using set_a store_ok_db0 [of False] by simp
qed

text \<open>
  Claim C6. Whenever \<open>db_set\<close> returns false, for whatever reason (a \<^verbatim>\<open>NULL\<close>
  argument, a length out of bounds, a failed \<^verbatim>\<open>strdup\<close> of the new value of an
  existing key, a failed allocation in \<^verbatim>\<open>create_entry\<close>), the table with its counter
  is the one before the call and the memory holds the same strings at the same
  addresses: nothing was inserted or updated.
\<close>

theorem failed_set_unchanged:
  "db_set cs h db k v = (False, h', db') \<Longrightarrow> db' = db \<and> mem h' = mem h"
  by (rule db_set_False)

theorem failed_set_unchanged_witness:
  "db_set False (heap1\<lparr>pending := []\<rparr>) (Some db1) (Some ''a'') (Some ''2'')
     = (False, heap1\<lparr>pending := []\<rparr>, Some db1)
   \<and> db_set False (heap0\<lparr>pending := [16, 32]\<rparr>) (Some db0) (Some ''a'') (Some ''1'')
     = (False, heap0\<lparr>pending := []\<rparr>, Some db0)
   \<and> mem (heap0\<lparr>pending := []\<rparr>) = mem heap0"
proof -
  have a: "db_set False (heap1\<lparr>pending := []\<rparr>) (Some db1) (Some ''a'') (Some ''2'')
     = (False, heap1\<lparr>pending := []\<rparr>, Some db1)"
    by (simp add: db_set_def hash_a db1_def heap1_def HASH_TABLE_SIZE_def key_matches_def
        strlen_def MAX_KEY_LENGTH_def MAX_VALUE_LENGTH_def malloc_def strdup_def NULL_def)
  have b: "db_set False (heap0\<lparr>pending := [16, 32]\<rparr>) (Some db0) (Some ''a'') (Some ''1'')
     = (False, heap0\<lparr>pending := []\<rparr>, Some db0)"
    by (simp add: db_set_def hash_a db0_def heap0_def HASH_TABLE_SIZE_def
        strlen_def MAX_KEY_LENGTH_def MAX_VALUE_LENGTH_def create_entry_def malloc_def strdup_def
        free_def NULL_def)
  from a b failed_set_unchanged [OF b] show ?thesis
    by simp
qed

text \<open>
  Claim C10. With a \<^verbatim>\<open>NULL\<close> store handle, or a \<^verbatim>\<open>NULL\<close> key, value or count
  pointer, every operation returns at once: \<open>db_set\<close>, \<open>db_delete\<close> and
  \<open>db_exists\<close> return false, \<open>db_get\<close> returns \<^verbatim>\<open>NULL\<close>, \<open>db_count\<close> returns 0,
  \<open>db_stats\<close> returns the all-zero record, and \<open>db_clear\<close>, \<open>db_destroy\<close> and
  \<open>db_keys\<close> (which returns \<^verbatim>\<open>NULL\<close>) leave the heap, the store and the count cell
  as they were.
\<close>

theorem null_arguments:
  "db_set cs h None k v = (False, h, None)
   \<and> db_set cs h db None v = (False, h, db)
   \<and> db_set cs h db k None = (False, h, db)
   \<and> db_delete cs h None k = (False, h, None)
   \<and> db_delete cs h db None = (False, h, db)
   \<and> db_exists cs h None k = False
   \<and> db_exists cs h db None = False
   \<and> db_get cs h None k = NULL
   \<and> db_get cs h db None = NULL
   \<and> db_count None = 0
   \<and> db_stats None = \<lparr>total_entries = 0, total_collisions = 0, max_chain_length = 0, used_buckets = 0\<rparr>
   \<and> db_clear h None = (h, None)
   \<and> db_destroy h None = h
   \<and> db_keys h None cnt = (None, cnt, h)
   \<and> db_keys h db None = (None, None, h)"
  by (simp add: db_set_def db_delete_def db_exists_def db_get_def db_count_def db_stats_def
      db_clear_def db_destroy_def db_keys_def split: option.splits)

section \<open>Set, get and delete on the contents\<close>

lemma value_inj:
  "distinct (chain_pointers es) \<Longrightarrow> x \<in> set es \<Longrightarrow> y \<in> set es \<Longrightarrow> value x = value y \<Longrightarrow> x = y"
  by (induction es) (auto dest: key_in_pointers value_in_pointers)

lemma contents_nth:
  "j < length (table d) \<Longrightarrow>
   contents h d ! j = map (\<lambda>e. (mem h (key e), mem h (value e))) (table d ! j)"
  by (simp add: contents_def)

lemma length_contents [simp]: "length (contents h d) = length (table d)"
  by (simp add: contents_def)

text \<open>The entry that holds a key, and what uniqueness says about the others.\<close>

lemma holder:
  assumes ok: "store_ok cs h d"
    and split: "table d ! unat (hash_function cs k) = pre @ e # post"
    and e: "mem h (key e) = Some k"
  shows "e \<in> set (entries d)"
    and "\<And>x. x \<in> set (entries d) \<Longrightarrow> mem h (key x) = Some k \<Longrightarrow> x = e"
    and "\<And>x. x \<in> set pre \<union> set post \<Longrightarrow> mem h (key x) \<noteq> Some k"
proof -
  let ?i = "unat (hash_function cs k)"
  have hok: "heap_ok h d" and kok: "keys_unique h d"
    using ok by (simp_all add: store_ok_def)
  have il: "?i < length (table d)"
    using hok by (rule index_less)
  show ein: "e \<in> set (entries d)"
    using il split by (rule split_in_entries)
  have inj: "inj_on (\<lambda>x. mem h (key x)) (set (entries d))"
    using kok by (simp add: keys_unique_def distinct_map)
  show u: "x = e" if "x \<in> set (entries d)" "mem h (key x) = Some k" for x
    using inj_onD [OF inj, of x e] that ein e by simp
  have E: "entries d = concat (take ?i (table d)) @ pre @ e # post @ concat (drop (Suc ?i) (table d))"
    using concat_split [OF il] split by (simp add: entries_def)
  have "distinct (map (\<lambda>x. mem h (key x)) (pre @ e # post))"
    using kok unfolding keys_unique_def E by auto
  then show "mem h (key x) \<noteq> Some k" if "x \<in> set pre \<union> set post" for x
    using that e by (auto simp: image_iff)
qed

lemma other_bucket:
  assumes ok: "store_ok cs h d" and j: "j < length (table d)" "j \<noteq> unat (hash_function cs k)"
    and x: "x \<in> set (table d ! j)"
  shows "mem h (key x) \<noteq> Some k"
proof
  assume "mem h (key x) = Some k"
  moreover have "buckets_ok cs h d"
    using ok by (simp add: store_ok_def)
  ultimately have "unat (hash_function cs k) = j"
    using j(1) x by (auto dest: buckets_okD)
  with j(2) show False by simp
qed

lemma table_eqI:
  assumes "length t' = length t" "\<And>j. j < length t \<Longrightarrow> t' ! j = f (t ! j)"
  shows "t' = map f t"
  using assms by (auto simp: list_eq_iff_nth_eq)

section \<open>Replacing the value of a present key\<close>

lemma set_present_result:
  assumes ok: "store_ok cs h d"
    and split: "table d ! unat (hash_function cs k) = pre @ e # post"
    and pre: "\<forall>x \<in> set pre. mem h (key x) \<noteq> Some k" and e: "mem h (key e) = Some k"
    and set: "db_set cs h (Some d) (Some k) (Some v) = (True, h', db')"
  shows "\<exists>p. p \<noteq> NULL \<and> mem h p = None \<and> mem h' = (mem h)(p \<mapsto> v, value e := None) \<and>
           db' = Some (d\<lparr>table := (table d)[unat (hash_function cs k) := pre @ e\<lparr>value := p\<rparr> # post]\<rparr>)"
proof -
  let ?i = "unat (hash_function cs k)"
  have hok: "heap_ok h d"
    using ok by (simp add: store_ok_def)
  have valid: "strlen k < MAX_KEY_LENGTH" "strlen v < MAX_VALUE_LENGTH"
    using set db_set_invalid [of k v cs h "Some d"] by (auto simp: not_le [symmetric])
  obtain p h1 where s: "strdup h v = (p, h1)"
    by (cases "strdup h v")
  have "e \<in> set (entries d)"
    using index_less [OF hok] split by (rule split_in_entries)
  then have ve: "value e \<noteq> NULL"
    using heap_okD(3) [OF hok] by blast
  from set db_set_present [OF valid split pre e s] strdup_cases [OF s]
  have n: "p \<noteq> NULL" "mem h p = None" "mem h1 = (mem h)(p \<mapsto> v)" "h' = free h1 (value e)"
    "db' = Some (d\<lparr>table := (table d)[?i := pre @ e\<lparr>value := p\<rparr> # post]\<rparr>)"
    by (auto split: if_splits)
  have "mem h' = (mem h)(p \<mapsto> v, value e := None)"
    using n(3,4) ve by (simp add: mem_free)
  with n show ?thesis by blast
qed

lemma update_frame:
  assumes hok: "heap_ok h d" and ein: "e \<in> set (entries d)"
    and fresh: "mem h p = None"
    and h': "mem h' = (mem h)(p \<mapsto> v, value e := None)"
    and x: "x \<in> set (entries d)"
  shows "mem h' (key x) = mem h (key x)"
    and "x \<noteq> e \<Longrightarrow> mem h' (value x) = mem h (value x)"
    and "p \<noteq> value e"
proof -
  note H = heap_okD [OF hok]
  have al: "mem h (key x) \<noteq> None" "mem h (value x) \<noteq> None" "mem h (value e) \<noteq> None"
    using H(3) x ein by blast+
  then have np: "key x \<noteq> p" "value x \<noteq> p" and "value e \<noteq> p"
    using fresh by auto
  then show "p \<noteq> value e" by simp
  have "key x \<noteq> value e"
    using H(2) x ein by (rule key_neq_value)
  with np show "mem h' (key x) = mem h (key x)"
    by (simp add: h')
  show "mem h' (value x) = mem h (value x)" if "x \<noteq> e"
  proof -
    have "value x \<noteq> value e"
      using value_inj [OF H(2) x ein] that by blast
    with np show ?thesis
      by (simp add: h')
  qed
qed

lemma set_present_contents:
  assumes ok: "store_ok cs h d"
    and split: "table d ! unat (hash_function cs k) = pre @ e # post"
    and pre: "\<forall>x \<in> set pre. mem h (key x) \<noteq> Some k" and e: "mem h (key e) = Some k"
    and fresh: "mem h p = None"
    and h': "mem h' = (mem h)(p \<mapsto> v, value e := None)"
  defines "d' \<equiv> d\<lparr>table := (table d)[unat (hash_function cs k) := pre @ e\<lparr>value := p\<rparr> # post]\<rparr>"
  shows "contents h' d' =
           map (map (\<lambda>(a, b). if a = Some k then (a, Some v) else (a, b))) (contents h d)"
    and "db_get cs h' (Some d') (Some k) = p" and "mem h' p = Some v"
proof -
  let ?i = "unat (hash_function cs k)"
  let ?G = "\<lambda>(a, b). if a = Some k then (a, Some v) else (a :: string option, b :: string option)"
  let ?g = "\<lambda>e. (mem h (key e), mem h (value e))"
  let ?g' = "\<lambda>e. (mem h' (key e), mem h' (value e))"
  have hok: "heap_ok h d"
    using ok by (simp add: store_ok_def)
  have il: "?i < length (table d)"
    using hok by (rule index_less)
  note U = holder [OF ok split e]
  note F = update_frame [OF hok U(1) fresh h']
  show pv: "mem h' p = Some v"
    using F(3) [OF U(1)] by (simp add: h')
  have other: "?g' x = ?G (?g x)" if "x \<in> set (entries d)" "mem h (key x) \<noteq> Some k" for x
  proof -
    have "x \<noteq> e" using that e by auto
    with F(1,2) [OF that(1)] that(2) show ?thesis by simp
  qed
  have this_one: "?g' (e\<lparr>value := p\<rparr>) = ?G (?g e)"
    using F(1) [OF U(1)] e pv by simp
  have sub: "set pre \<union> set post \<subseteq> set (entries d)"
    using in_entries [OF il] split by auto
  have bucket: "map ?g' (pre @ e\<lparr>value := p\<rparr> # post) = map ?G (map ?g (pre @ e # post))"
    using other U(3) sub this_one by (auto simp del: split_paired_All)
  show "contents h' d' = map (map ?G) (contents h d)"
  proof (rule table_eqI)
    show "length (contents h' d') = length (contents h d)"
      by (simp add: d'_def)
  next
    fix j
    assume "j < length (contents h d)"
    then have jl: "j < length (table d)" by simp
    show "contents h' d' ! j = map ?G (contents h d ! j)"
    proof (cases "j = ?i")
      case True
      with jl bucket split show ?thesis
        by (simp add: contents_nth d'_def)
    next
      case False
      have "map ?g' (table d ! j) = map ?G (map ?g (table d ! j))"
        using other other_bucket [OF ok jl False] in_entries [OF jl]
        by (auto simp del: split_paired_All)
      with jl False show ?thesis
        by (simp add: contents_nth d'_def)
    qed
  qed
  have "table d' ! ?i = pre @ e\<lparr>value := p\<rparr> # post"
    using il by (simp add: d'_def)
  moreover have "\<forall>x \<in> set pre. mem h' (key x) \<noteq> Some k"
    using pre F(1) sub by auto
  moreover have "mem h' (key (e\<lparr>value := p\<rparr>)) = Some k"
    using F(1) [OF U(1)] e by simp
  ultimately have "db_get cs h' (Some d') (Some k) = value (e\<lparr>value := p\<rparr>)"
    by (rule db_get_present)
  then show "db_get cs h' (Some d') (Some k) = p"
    by simp
qed

section \<open>Inserting an absent key\<close>

lemma set_absent_result:
  assumes ok: "store_ok cs h d"
    and absent: "\<forall>x \<in> set (table d ! unat (hash_function cs k)). mem h (key x) \<noteq> Some k"
    and set: "db_set cs h (Some d) (Some k) (Some v) = (True, h', db')"
  shows "\<exists>kp vp. kp \<noteq> NULL \<and> vp \<noteq> NULL \<and> kp \<noteq> vp \<and> mem h kp = None \<and> mem h vp = None \<and>
           mem h' = (mem h)(kp \<mapsto> k, vp \<mapsto> v) \<and>
           db' = Some (d\<lparr>table := (table d)[unat (hash_function cs k) :=
                            \<lparr>key = kp, value = vp\<rparr> # table d ! unat (hash_function cs k)],
                          count := count d + 1\<rparr>) \<and>
           db_get cs h' db' (Some k) = vp \<and> mem h' vp = Some v"
proof -
  let ?i = "unat (hash_function cs k)"
  have hok: "heap_ok h d"
    using ok by (simp add: store_ok_def)
  have il: "?i < length (table d)"
    using hok by (rule index_less)
  have valid: "strlen k < MAX_KEY_LENGTH" "strlen v < MAX_VALUE_LENGTH"
    using set db_set_invalid [of k v cs h "Some d"] by (auto simp: not_le [symmetric])
  obtain r2 h2 where c: "create_entry h k v = (r2, h2)"
    by (cases "create_entry h k v")
  from set db_set_absent [OF valid absent c] create_entry_cases [OF c]
  obtain kp vp where n: "kp \<noteq> NULL" "vp \<noteq> NULL" "kp \<noteq> vp" "mem h kp = None" "mem h vp = None"
    "mem h' = (mem h)(kp \<mapsto> k, vp \<mapsto> v)"
    "db' = Some (d\<lparr>table := (table d)[?i := \<lparr>key = kp, value = vp\<rparr> # table d ! ?i],
                    count := count d + 1\<rparr>)"
    by (auto split: option.splits)
  let ?d' = "d\<lparr>table := (table d)[?i := \<lparr>key = kp, value = vp\<rparr> # table d ! ?i],
                count := count d + 1\<rparr>"
  have "table ?d' ! ?i = [] @ \<lparr>key = kp, value = vp\<rparr> # table d ! ?i"
    using il by simp
  moreover have "\<forall>x \<in> set []. mem h' (key x) \<noteq> Some k"
    by simp
  moreover have "mem h' (key \<lparr>key = kp, value = vp\<rparr>) = Some k"
    using n(3) by (simp add: n(6))
  ultimately have "db_get cs h' (Some ?d') (Some k) = value \<lparr>key = kp, value = vp\<rparr>"
    by (rule db_get_present)
  then have "db_get cs h' db' (Some k) = vp"
    by (simp add: n(7))
  moreover have "mem h' vp = Some v"
    by (simp add: n(6))
  ultimately show ?thesis
    using n by blast
qed

section \<open>Removing a present key\<close>

lemma delete_frame:
  assumes hok: "heap_ok h d" and ein: "e \<in> set (entries d)"
    and h': "mem h' = (mem h)(key e := None, value e := None)"
    and x: "x \<in> set (entries d)" "x \<noteq> e"
  shows "mem h' (key x) = mem h (key x)" and "mem h' (value x) = mem h (value x)"
proof -
  note H = heap_okD [OF hok]
  have "key x \<noteq> key e"
    using key_inj [OF H(2) x(1) ein] x(2) by blast
  moreover have "key x \<noteq> value e"
    using H(2) x(1) ein by (rule key_neq_value)
  moreover have "value x \<noteq> value e"
    using value_inj [OF H(2) x(1) ein] x(2) by blast
  moreover have "key e \<noteq> value x"
    using H(2) ein x(1) by (rule key_neq_value)
  ultimately show "mem h' (key x) = mem h (key x)" and "mem h' (value x) = mem h (value x)"
    by (auto simp: h')
qed

lemma filter_map_keep: "\<forall>x \<in> set xs. P (f x) \<Longrightarrow> filter P (map f xs) = map f xs"
  by (induction xs) simp_all

lemma delete_present_contents:
  assumes ok: "store_ok cs h d"
    and split: "table d ! unat (hash_function cs k) = pre @ e # post"
    and e: "mem h (key e) = Some k"
    and h': "mem h' = (mem h)(key e := None, value e := None)"
  defines "d' \<equiv> d\<lparr>table := (table d)[unat (hash_function cs k) := pre @ post], count := count d - 1\<rparr>"
  shows "contents h' d' = map (filter (\<lambda>(a, b). a \<noteq> Some k)) (contents h d)"
proof -
  let ?i = "unat (hash_function cs k)"
  let ?P = "\<lambda>(a :: string option, b :: string option). a \<noteq> Some k"
  let ?g = "\<lambda>e. (mem h (key e), mem h (value e))"
  let ?g' = "\<lambda>e. (mem h' (key e), mem h' (value e))"
  have hok: "heap_ok h d"
    using ok by (simp add: store_ok_def)
  have il: "?i < length (table d)"
    using hok by (rule index_less)
  note U = holder [OF ok split e]
  have other: "?g' x = ?g x \<and> ?P (?g x)" if "x \<in> set (entries d)" "mem h (key x) \<noteq> Some k" for x
  proof -
    have "x \<noteq> e" using that e by auto
    with delete_frame [OF hok U(1) h' that(1)] that(2) show ?thesis by simp
  qed
  have sub: "set pre \<union> set post \<subseteq> set (entries d)"
    using in_entries [OF il] split by auto
  have keep: "map ?g' xs = filter ?P (map ?g xs)"
    if "set xs \<subseteq> set (entries d)" "\<forall>x \<in> set xs. mem h (key x) \<noteq> Some k" for xs
  proof -
    have "map ?g' xs = map ?g xs"
      using that other by (intro map_cong refl) (auto simp del: split_paired_All)
    moreover have "filter ?P (map ?g xs) = map ?g xs"
      using that other by (intro filter_map_keep) (auto simp del: split_paired_All)
    ultimately show ?thesis by simp
  qed
  have "map ?g' pre = filter ?P (map ?g pre)" "map ?g' post = filter ?P (map ?g post)"
    using sub U(3) by (intro keep; auto)+
  then have bucket: "map ?g' (pre @ post) = filter ?P (map ?g (pre @ e # post))"
    using e by simp
  show ?thesis
  proof (rule table_eqI)
    show "length (contents h' d') = length (contents h d)"
      by (simp add: d'_def)
  next
    fix j
    assume "j < length (contents h d)"
    then have jl: "j < length (table d)" by simp
    show "contents h' d' ! j = filter ?P (contents h d ! j)"
    proof (cases "j = ?i")
      case True
      with jl bucket split show ?thesis
        by (simp add: contents_nth d'_def)
    next
      case False
      have "map ?g' (table d ! j) = filter ?P (map ?g (table d ! j))"
        using other_bucket [OF ok jl False] in_entries [OF jl] by (intro keep) auto
      with jl False show ?thesis
        by (simp add: contents_nth d'_def)
    qed
  qed
qed

section \<open>More on the example stores\<close>

lemma present_a: "present heap1 db1 ''a''"
  by (simp add: present_def entries_db1 heap1_def)

lemma not_present_a: "\<not> present heap0 db0 ''a''"
  by (simp add: present_def entries_def db0_def)

lemma set_a2: "db_set False heap1 (Some db1) (Some ''a'') (Some ''2'') = (True, heap2, Some db2)"
  by (simp add: db_set_def hash_a db1_def db2_def heap1_def heap2_def HASH_TABLE_SIZE_def
      key_matches_def strlen_def MAX_KEY_LENGTH_def MAX_VALUE_LENGTH_def malloc_def strdup_def
      free_def NULL_def)

lemma replicate_update_same [simp]: "(replicate n x)[i := x] = replicate n x"
  by (cases "i < n") (simp_all add: list_update_same_conv list_update_beyond)

lemma delete_a:
  "db_delete False heap1 (Some db1) (Some ''a'') =
     (True, heap1\<lparr>mem := (mem heap1)(32 := None, 48 := None)\<rparr>, Some db0)"
  by (simp add: db_delete_def hash_a db1_def db0_def heap1_def HASH_TABLE_SIZE_def
      key_matches_def free_entry_def free_def NULL_def)

section \<open>Set, get and delete\<close>

text \<open>
  Claim C2. On a store that satisfies its invariants, when \<open>db_set\<close> on key \<open>k\<close> and
  value \<open>v\<close> returns true (which it does only for lengths within the bounds),
  \<open>db_get\<close> on \<open>k\<close> in the resulting state returns a pointer that is not
  \<^verbatim>\<open>NULL\<close> and points to the string \<open>v\<close>.
\<close>

theorem set_then_get:
  assumes "store_ok cs h d" and "db_set cs h (Some d) (Some k) (Some v) = (True, h', db')"
  shows "strlen k < MAX_KEY_LENGTH \<and> strlen v < MAX_VALUE_LENGTH
         \<and> db_get cs h' db' (Some k) \<noteq> NULL \<and> mem h' (db_get cs h' db' (Some k)) = Some v"
proof -
  have valid: "strlen k < MAX_KEY_LENGTH \<and> strlen v < MAX_VALUE_LENGTH"
    using assms(2) db_set_invalid [of k v cs h "Some d"] by (auto simp: not_le [symmetric])
  have "db_get cs h' db' (Some k) \<noteq> NULL \<and> mem h' (db_get cs h' db' (Some k)) = Some v"
  proof (cases "table d ! unat (hash_function cs k)" h k rule: chain_cases)
    case absent
    from set_absent_result [OF assms(1) absent assms(2)] show ?thesis
      by auto
  next
    case (present pre e post)
    from set_present_result [OF assms(1) present assms(2)] obtain p where
      p: "p \<noteq> NULL" "mem h p = None" "mem h' = (mem h)(p \<mapsto> v, value e := None)"
      "db' = Some (d\<lparr>table := (table d)[unat (hash_function cs k) := pre @ e\<lparr>value := p\<rparr> # post]\<rparr>)"
      by blast
    from set_present_contents(2,3) [OF assms(1) present p(2,3)] p(1,4) show ?thesis
      by simp
  qed
  with valid show ?thesis by simp
qed

theorem set_then_get_witness:
  "store_ok False heap0 db0
   \<and> db_set False heap0 (Some db0) (Some ''a'') (Some ''1'') = (True, heap1, Some db1)
   \<and> db_get False heap1 (Some db1) (Some ''a'') \<noteq> NULL
   \<and> mem heap1 (db_get False heap1 (Some db1) (Some ''a'')) = Some ''1''"
  using set_then_get [OF store_ok_db0 set_a] store_ok_db0 [of False] set_a by simp

text \<open>
  What a successful \<open>db_set\<close> on a present key leaves behind.
\<close>

lemma set_present_replaces:
  assumes "store_ok cs h d" and "present h d k"
    and "db_set cs h (Some d) (Some k) (Some v2) = (True, h', db')"
  shows "\<exists>d'. db' = Some d'
           \<and> db_get cs h' db' (Some k) \<noteq> NULL \<and> mem h' (db_get cs h' db' (Some k)) = Some v2
           \<and> db_count db' = db_count (Some d)
           \<and> map (map key) (table d') = map (map key) (table d)
           \<and> contents h' d' =
               map (map (\<lambda>(a, b). if a = Some k then (a, Some v2) else (a, b))) (contents h d)"
proof -
  let ?i = "unat (hash_function cs k)"
  have hok: "heap_ok h d" and bok: "buckets_ok cs h d"
    using assms(1) by (simp_all add: store_ok_def)
  have "\<exists>e \<in> set (table d ! ?i). mem h (key e) = Some k"
    using present_bucket [OF bok heap_okD(1) [OF hok], of k] assms(2) by simp
  then obtain pre e post where split: "table d ! ?i = pre @ e # post"
    "\<forall>x \<in> set pre. mem h (key x) \<noteq> Some k" "mem h (key e) = Some k"
    using first_match by blast
  from set_present_result [OF assms(1) split assms(3)] obtain p where
    p: "p \<noteq> NULL" "mem h p = None" "mem h' = (mem h)(p \<mapsto> v2, value e := None)"
    "db' = Some (d\<lparr>table := (table d)[?i := pre @ e\<lparr>value := p\<rparr> # post]\<rparr>)"
    by blast
  let ?d' = "d\<lparr>table := (table d)[?i := pre @ e\<lparr>value := p\<rparr> # post]\<rparr>"
  note C = set_present_contents [OF assms(1) split p(2,3)]
  have "map (map key) (table ?d') = (map (map key) (table d))[?i := map key (table d ! ?i)]"
    by (simp add: map_update split)
  also have "\<dots> = map (map key) (table d)"
    using index_less [OF hok, of cs k] by (simp add: list_update_same_conv)
  finally have "map (map key) (table ?d') = map (map key) (table d)" .
  with C p(1,4) show ?thesis
    by (simp add: db_count_def)
qed

text \<open>
  What \<open>db_set\<close> returns on a present key with lengths within the bounds: it is
  decided by the \<^verbatim>\<open>strdup\<close> of the new value alone.
\<close>

lemma set_present_outcome:
  assumes ok: "store_ok cs h d" and pr: "present h d k"
    and valid: "strlen k < MAX_KEY_LENGTH" "strlen v2 < MAX_VALUE_LENGTH"
  shows "fst (strdup h v2) \<noteq> NULL \<Longrightarrow>
           \<exists>h' d'. db_set cs h (Some d) (Some k) (Some v2) = (True, h', Some d')"
    and "fst (strdup h v2) = NULL \<Longrightarrow>
           \<exists>h'. db_set cs h (Some d) (Some k) (Some v2) = (False, h', Some d) \<and> mem h' = mem h"
proof -
  let ?i = "unat (hash_function cs k)"
  have hok: "heap_ok h d" and bok: "buckets_ok cs h d"
    using ok by (simp_all add: store_ok_def)
  have "\<exists>e \<in> set (table d ! ?i). mem h (key e) = Some k"
    using present_bucket [OF bok heap_okD(1) [OF hok], of k] pr by simp
  then obtain pre e post where split: "table d ! ?i = pre @ e # post"
    "\<forall>x \<in> set pre. mem h (key x) \<noteq> Some k" "mem h (key e) = Some k"
    using first_match by blast
  obtain p h1 where s: "strdup h v2 = (p, h1)"
    by (cases "strdup h v2")
  note eq = db_set_present [OF valid split s]
  show "\<exists>h' d'. db_set cs h (Some d) (Some k) (Some v2) = (True, h', Some d')"
    if "fst (strdup h v2) \<noteq> NULL"
    using that eq s by simp
  show "\<exists>h'. db_set cs h (Some d) (Some k) (Some v2) = (False, h', Some d) \<and> mem h' = mem h"
    if "fst (strdup h v2) = NULL"
    using that eq s strdup_cases [OF s] by simp
qed

text \<open>
  Claim C3, as amended. On a store that satisfies its invariants and already holds key
  \<open>k\<close>, take a \<open>db_set\<close> on \<open>k\<close> and \<open>v2\<close> with lengths within the bounds. When the
  \<^verbatim>\<open>strdup\<close> of \<open>v2\<close> succeeds, \<open>db_set\<close> returns true and replaces the value in
  place: \<open>db_get\<close> on \<open>k\<close> then points to \<open>v2\<close>, \<open>db_count\<close> is what it was, every
  chain consists of the same entries with the same key buffers in the same order, and
  read through the pointers the table differs only in the value of \<open>k\<close>'s entry. When
  that \<^verbatim>\<open>strdup\<close> fails, \<open>db_set\<close> returns false and the table and the strings in
  memory are what they were.
\<close>

theorem set_existing_key:
  assumes "store_ok cs h d" and "present h d k"
    and "strlen k < MAX_KEY_LENGTH" and "strlen v2 < MAX_VALUE_LENGTH"
  shows "(fst (strdup h v2) \<noteq> NULL \<longrightarrow>
            (\<exists>h' d'. db_set cs h (Some d) (Some k) (Some v2) = (True, h', Some d')
               \<and> db_get cs h' (Some d') (Some k) \<noteq> NULL
               \<and> mem h' (db_get cs h' (Some d') (Some k)) = Some v2
               \<and> db_count (Some d') = db_count (Some d)
               \<and> map (map key) (table d') = map (map key) (table d)
               \<and> contents h' d' =
                   map (map (\<lambda>(a, b). if a = Some k then (a, Some v2) else (a, b))) (contents h d)))
       \<and> (fst (strdup h v2) = NULL \<longrightarrow>
            (\<exists>h'. db_set cs h (Some d) (Some k) (Some v2) = (False, h', Some d) \<and> mem h' = mem h))"
proof (intro conjI impI)
  assume "fst (strdup h v2) \<noteq> NULL"
  then obtain h' d' where s: "db_set cs h (Some d) (Some k) (Some v2) = (True, h', Some d')"
    using set_present_outcome(1) [OF assms] by blast
  from set_present_replaces [OF assms(1,2) s] s
  show "\<exists>h' d'. db_set cs h (Some d) (Some k) (Some v2) = (True, h', Some d')
      \<and> db_get cs h' (Some d') (Some k) \<noteq> NULL
      \<and> mem h' (db_get cs h' (Some d') (Some k)) = Some v2
      \<and> db_count (Some d') = db_count (Some d)
      \<and> map (map key) (table d') = map (map key) (table d)
      \<and> contents h' d' =
          map (map (\<lambda>(a, b). if a = Some k then (a, Some v2) else (a, b))) (contents h d)"
    by auto
next
  assume "fst (strdup h v2) = NULL"
  then show "\<exists>h'. db_set cs h (Some d) (Some k) (Some v2) = (False, h', Some d) \<and> mem h' = mem h"
    by (rule set_present_outcome(2) [OF assms])
qed

lemma strdup_heap1: "strdup heap1 ''2'' = (64, heap1\<lparr>mem := (mem heap1)(64 \<mapsto> ''2''), pending := [80, 96]\<rparr>)"
  by (simp add: strdup_def malloc_def heap1_def NULL_def)

lemma valid_a2: "strlen ''a'' < MAX_KEY_LENGTH" "strlen ''2'' < MAX_VALUE_LENGTH"
  by (simp_all add: strlen_def MAX_KEY_LENGTH_def MAX_VALUE_LENGTH_def)

theorem set_existing_key_witness:
  "store_ok False heap1 db1 \<and> present heap1 db1 ''a''
   \<and> strlen ''a'' < MAX_KEY_LENGTH \<and> strlen ''2'' < MAX_VALUE_LENGTH
   \<and> fst (strdup heap1 ''2'') \<noteq> NULL
   \<and> db_set False heap1 (Some db1) (Some ''a'') (Some ''2'') = (True, heap2, Some db2)
   \<and> db_get False heap2 (Some db2) (Some ''a'') \<noteq> NULL
   \<and> mem heap2 (db_get False heap2 (Some db2) (Some ''a'')) = Some ''2''
   \<and> db_count (Some db2) = db_count (Some db1)"
proof -
  have ok: "fst (strdup heap1 ''2'') \<noteq> NULL"
    by (simp add: strdup_heap1 NULL_def)
  with set_existing_key [OF store_ok_db1 present_a valid_a2] obtain h' d' where
    r: "db_set False heap1 (Some db1) (Some ''a'') (Some ''2'') = (True, h', Some d')"
      "db_get False h' (Some d') (Some ''a'') \<noteq> NULL"
      "mem h' (db_get False h' (Some d') (Some ''a'')) = Some ''2''"
      "db_count (Some d') = db_count (Some db1)"
    by blast
  from r(1) set_a2 have "h' = heap2" "d' = db2"
    by simp_all
  with r ok store_ok_db1 present_a valid_a2 set_a2 show ?thesis
    by simp
qed

text \<open>
  The claim as stated, for every set with valid arguments, fails when memory is
  exhausted. In the store that holds \<^verbatim>\<open>"a"\<close> with value \<^verbatim>\<open>"1"\<close>, with an allocator
  that has nothing left, \<^verbatim>\<open>db_set(db, "a", "2")\<close> has lengths within the bounds and
  returns false, and \<^verbatim>\<open>db_get(db, "a")\<close> still points to \<^verbatim>\<open>"1"\<close>.
\<close>

theorem set_existing_key_no_memory:
  "store_ok False (heap1\<lparr>pending := []\<rparr>) db1
   \<and> present (heap1\<lparr>pending := []\<rparr>) db1 ''a''
   \<and> strlen ''a'' < MAX_KEY_LENGTH \<and> strlen ''2'' < MAX_VALUE_LENGTH
   \<and> db_set False (heap1\<lparr>pending := []\<rparr>) (Some db1) (Some ''a'') (Some ''2'')
       = (False, heap1\<lparr>pending := []\<rparr>, Some db1)
   \<and> mem (heap1\<lparr>pending := []\<rparr>)
        (db_get False (heap1\<lparr>pending := []\<rparr>) (Some db1) (Some ''a'')) = Some ''1''"
proof -
  have a: "store_ok False (heap1\<lparr>pending := []\<rparr>) db1"
    using store_ok_db1 by (rule store_ok_mem) simp
  have b: "present (heap1\<lparr>pending := []\<rparr>) db1 ''a''"
    using present_a by (simp add: present_def)
  have c: "db_set False (heap1\<lparr>pending := []\<rparr>) (Some db1) (Some ''a'') (Some ''2'')
       = (False, heap1\<lparr>pending := []\<rparr>, Some db1)"
    by (simp add: db_set_def hash_a db1_def heap1_def HASH_TABLE_SIZE_def key_matches_def
        strlen_def MAX_KEY_LENGTH_def MAX_VALUE_LENGTH_def malloc_def strdup_def NULL_def)
  have d: "db_get False (heap1\<lparr>pending := []\<rparr>) (Some db1) (Some ''a'') = 48"
    by (simp add: db_get_def hash_a db1_def heap1_def HASH_TABLE_SIZE_def key_matches_def)
  have e: "mem (heap1\<lparr>pending := []\<rparr>) 48 = Some ''1''"
    by (simp add: heap1_def)
  from a b c d e valid_a2 show ?thesis
    by simp
qed

text \<open>
  Claim C4. On a store that satisfies its invariants, \<open>db_delete\<close> on a key \<open>k\<close>
  that is present returns true; the bucket of \<open>k\<close>, which was \<open>pre @ e # post\<close> with
  \<open>e\<close> the entry of \<open>k\<close>, becomes \<open>pre @ post\<close> (so the head changes when \<open>pre\<close> is
  empty and the last node of \<open>pre\<close> gets a new successor otherwise); the two buffers of
  \<open>e\<close> are freed, the counter goes down by exactly one, and read through the pointers
  the table has lost the entry of \<open>k\<close> and nothing else. On a key that is absent
  \<open>db_delete\<close> returns false and the heap, the table and the counter are unchanged.
\<close>

theorem delete_present_absent:
  assumes "store_ok cs h d"
  shows "(present h d k \<longrightarrow>
            (\<exists>pre e post h' d'.
               table d ! unat (hash_function cs k) = pre @ e # post \<and> mem h (key e) = Some k
               \<and> db_delete cs h (Some d) (Some k) = (True, h', Some d')
               \<and> table d' = (table d)[unat (hash_function cs k) := pre @ post]
               \<and> mem h' = (mem h)(key e := None, value e := None)
               \<and> db_count (Some d') = db_count (Some d) - 1
               \<and> unat (db_count (Some d')) + 1 = unat (db_count (Some d))
               \<and> contents h' d' = map (filter (\<lambda>(a, b). a \<noteq> Some k)) (contents h d)))
       \<and> (\<not> present h d k \<longrightarrow> db_delete cs h (Some d) (Some k) = (False, h, Some d))"
proof -
  let ?i = "unat (hash_function cs k)"
  have hok: "heap_ok h d" and bok: "buckets_ok cs h d" and cok: "count_ok d"
    using assms by (simp_all add: store_ok_def)
  note pb = present_bucket [OF bok heap_okD(1) [OF hok], of k]
  show ?thesis
  proof (cases "present h d k")
    case False
    then have "\<forall>x \<in> set (table d ! ?i). mem h (key x) \<noteq> Some k"
      using pb by blast
    then have "db_delete cs h (Some d) (Some k) = (False, h, Some d)"
      by (rule db_delete_absent)
    with False show ?thesis by simp
  next
    case True
    then have "\<exists>e \<in> set (table d ! ?i). mem h (key e) = Some k"
      using pb by simp
    then obtain pre e post where split: "table d ! ?i = pre @ e # post"
      "\<forall>x \<in> set pre. mem h (key x) \<noteq> Some k" "mem h (key e) = Some k"
      using first_match by blast
    let ?d' = "d\<lparr>table := (table d)[?i := pre @ post], count := count d - 1\<rparr>"
    have ein: "e \<in> set (entries d)"
      using index_less [OF hok] split(1) by (rule split_in_entries)
    then have "key e \<noteq> NULL" "value e \<noteq> NULL"
      using heap_okD(3) [OF hok] by blast+
    then have m: "mem (free_entry h e) = (mem h)(key e := None, value e := None)"
      by (rule mem_free_entry)
    have del: "db_delete cs h (Some d) (Some k) = (True, free_entry h e, Some ?d')"
      using split by (rule db_delete_present)
    have "0 < length (entries d)"
      using ein by (cases "entries d") auto
    then have "count d \<noteq> 0"
      using cok by (auto simp: count_ok_def)
    then have "unat (count d - 1) = unat (count d) - 1" and "0 < unat (count d)"
      by (simp_all add: unat_minus_one unat_gt_0)
    then have cnt: "unat (db_count (Some ?d')) + 1 = unat (db_count (Some d))"
      by (simp add: db_count_def)
    have "contents (free_entry h e) ?d' = map (filter (\<lambda>(a, b). a \<noteq> Some k)) (contents h d)"
      using assms split(1,3) m by (rule delete_present_contents)
    with split(1,3) del m cnt have
      "table d ! ?i = pre @ e # post \<and> mem h (key e) = Some k
       \<and> db_delete cs h (Some d) (Some k) = (True, free_entry h e, Some ?d')
       \<and> table ?d' = (table d)[?i := pre @ post]
       \<and> mem (free_entry h e) = (mem h)(key e := None, value e := None)
       \<and> db_count (Some ?d') = db_count (Some d) - 1
       \<and> unat (db_count (Some ?d')) + 1 = unat (db_count (Some d))
       \<and> contents (free_entry h e) ?d' = map (filter (\<lambda>(a, b). a \<noteq> Some k)) (contents h d)"
      by (simp add: db_count_def)
    then show ?thesis
      using True by blast
  qed
qed

theorem delete_present_absent_witness:
  "store_ok False heap1 db1 \<and> present heap1 db1 ''a''
   \<and> fst (db_delete False heap1 (Some db1) (Some ''a'')) = True
   \<and> db_count (snd (snd (db_delete False heap1 (Some db1) (Some ''a'')))) = 0
   \<and> store_ok False heap0 db0 \<and> \<not> present heap0 db0 ''a''
   \<and> db_delete False heap0 (Some db0) (Some ''a'') = (False, heap0, Some db0)"
proof -
  from delete_present_absent [OF store_ok_db1, of "''a''"] present_a
  have "fst (db_delete False heap1 (Some db1) (Some ''a'')) = True"
    by auto
  moreover from delete_present_absent [of False heap0 db0 "''a''", OF store_ok_db0] not_present_a
  have "db_delete False heap0 (Some db0) (Some ''a'') = (False, heap0, Some db0)"
    by simp
  moreover have "db_count (snd (snd (db_delete False heap1 (Some db1) (Some ''a'')))) = 0"
    by (simp add: delete_a db_count_def db0_def)
  ultimately show ?thesis
    using store_ok_db1 store_ok_db0 [of False] present_a not_present_a by simp
qed

section \<open>Statistics\<close>

lemma stats_chain_eq:
  "stats_chain chain (n, st) =
     (n + of_nat (length chain),
      st\<lparr>total_collisions := total_collisions st + of_nat (length chain - 1)\<rparr>)"
proof (induction chain arbitrary: n st)
  case Nil
  then show ?case by simp
next
  case (Cons e rest)
  show ?case
  proof (cases rest)
    case Nil
    then show ?thesis by simp
  next
    case (Cons e' rest')
    then show ?thesis
      using Cons.IH [of "n + 1" "st\<lparr>total_collisions := total_collisions st + 1\<rparr>"]
      by (simp add: add.assoc)
  qed
qed

lemma stats_bucket_fields:
  "total_entries (stats_bucket chain st) = total_entries st"
  "used_buckets (stats_bucket chain st) = used_buckets st + (if chain = [] then 0 else 1)"
  "total_collisions (stats_bucket chain st) = total_collisions st + of_nat (length chain - 1)"
  "max_chain_length (stats_bucket chain st) =
     (if chain \<noteq> [] \<and> max_chain_length st < of_nat (length chain) then of_nat (length chain)
      else max_chain_length st)"
  by (simp_all add: stats_bucket_def stats_chain_eq)

lemma fold_stats_total [simp]:
  "total_entries (fold stats_bucket t st) = total_entries st"
  by (induction t arbitrary: st) (simp_all add: stats_bucket_fields)

lemma fold_stats_used:
  "used_buckets (fold stats_bucket t st) =
     used_buckets st + of_nat (length (filter (\<lambda>chain. chain \<noteq> []) t))"
  by (induction t arbitrary: st) (simp_all add: stats_bucket_fields)

lemma fold_stats_collisions:
  "total_collisions (fold stats_bucket t st) =
     total_collisions st + of_nat (\<Sum>chain\<leftarrow>t. length chain - 1)"
  by (induction t arbitrary: st) (simp_all add: stats_bucket_fields add.assoc)

lemma unat_of_nat64: "n < 2 ^ 64 \<Longrightarrow> unat (of_nat n :: 64 word) = n"
  by (simp add: unat_of_nat)

lemma max_step:
  fixes m :: "64 word"
  assumes "n < 2 ^ 64"
  shows "unat (if c \<and> m < of_nat n then of_nat n else m) = (if c then max (unat m) n else unat m)"
  using assms by (auto simp: word_less_nat_alt unat_of_nat64)

lemma fold_stats_max:
  "\<forall>chain \<in> set t. length chain < 2 ^ 64 \<Longrightarrow>
   unat (max_chain_length (fold stats_bucket t st)) =
     fold max (map length t) (unat (max_chain_length st))"
proof (induction t arbitrary: st)
  case Nil
  then show ?case by simp
next
  case (Cons chain t)
  have "unat (max_chain_length (stats_bucket chain st)) =
      (if chain \<noteq> [] then max (unat (max_chain_length st)) (length chain)
       else unat (max_chain_length st))"
    unfolding stats_bucket_fields using Cons.prems by (intro max_step) simp
  also have "\<dots> = max (length chain) (unat (max_chain_length st))"
    by (auto simp: max_def)
  finally show ?case
    using Cons by simp
qed

lemma db_stats_fold:
  "length (table d) = HASH_TABLE_SIZE \<Longrightarrow>
   db_stats (Some d) =
     fold stats_bucket (table d)
       \<lparr>total_entries = count d, total_collisions = 0, max_chain_length = 0, used_buckets = 0\<rparr>"
  by (simp add: db_stats_def fold_nth)

lemma length_entries: "length (entries d) = sum_list (map length (table d))"
  by (simp add: entries_def length_concat)

lemma sum_list_pred_le: "(\<Sum>chain\<leftarrow>t. length chain - 1) \<le> sum_list (map length t)"
  by (induction t) auto

text \<open>
  Claim C9. On a store that satisfies its invariants, \<open>db_stats\<close> returns
  \<open>total_entries\<close> equal to \<open>db_count\<close> and to the sum of the chain lengths,
  \<open>used_buckets\<close> equal to the number of non-empty chains, \<open>total_collisions\<close> equal
  to the sum over the buckets of the chain length minus one (zero for an empty chain),
  and \<open>max_chain_length\<close> equal to the greatest chain length (zero when every chain is
  empty). \<open>db_stats\<close> takes the table and returns the record only: it writes nothing.
\<close>

theorem db_stats_correct:
  assumes "store_ok cs h d"
  shows "total_entries (db_stats (Some d)) = db_count (Some d)
       \<and> unat (total_entries (db_stats (Some d))) = sum_list (map length (table d))
       \<and> unat (used_buckets (db_stats (Some d))) = length (filter (\<lambda>chain. chain \<noteq> []) (table d))
       \<and> unat (total_collisions (db_stats (Some d))) = (\<Sum>chain\<leftarrow>table d. length chain - 1)
       \<and> unat (max_chain_length (db_stats (Some d))) = Max (set (0 # map length (table d)))"
proof -
  let ?st0 = "\<lparr>total_entries = count d, total_collisions = 0, max_chain_length = 0, used_buckets = 0\<rparr>"
  have len: "length (table d) = HASH_TABLE_SIZE" and cok: "count_ok d"
    using assms by (simp_all add: store_ok_def heap_ok_def)
  have S: "db_stats (Some d) = fold stats_bucket (table d) ?st0"
    using len by (rule db_stats_fold)
  have total: "sum_list (map length (table d)) = unat (count d)"
    using cok by (simp add: count_ok_def length_entries)
  then have bound: "sum_list (map length (table d)) < 2 ^ 64"
    using unsigned_less [of "count d"] by simp
  have a: "total_entries (db_stats (Some d)) = db_count (Some d)"
    by (simp add: S db_count_def)
  have b: "unat (total_entries (db_stats (Some d))) = sum_list (map length (table d))"
    by (simp add: S total)
  have "length (filter (\<lambda>chain. chain \<noteq> []) (table d)) \<le> HASH_TABLE_SIZE"
    using length_filter_le [of "\<lambda>chain. chain \<noteq> []" "table d"] len by simp
  then have "length (filter (\<lambda>chain. chain \<noteq> []) (table d)) < 2 ^ 64"
    by (simp add: HASH_TABLE_SIZE_def)
  then have c: "unat (used_buckets (db_stats (Some d))) =
      length (filter (\<lambda>chain. chain \<noteq> []) (table d))"
    by (simp add: S fold_stats_used unat_of_nat64)
  have "(\<Sum>chain\<leftarrow>table d. length chain - 1) < 2 ^ 64"
    using sum_list_pred_le [of "table d"] bound by simp
  then have e: "unat (total_collisions (db_stats (Some d))) = (\<Sum>chain\<leftarrow>table d. length chain - 1)"
    by (simp add: S fold_stats_collisions unat_of_nat64)
  have "\<forall>chain \<in> set (table d). length chain < 2 ^ 64"
  proof
    fix chain
    assume "chain \<in> set (table d)"
    then have "length chain \<le> sum_list (map length (table d))"
      by (intro member_le_sum_list) simp_all
    with bound show "length chain < 2 ^ 64" by simp
  qed
  then have "unat (max_chain_length (db_stats (Some d))) = fold max (map length (table d)) 0"
    unfolding S by (subst fold_stats_max) simp_all
  also have "\<dots> = Max (set (0 # map length (table d)))"
    by (simp only: Max.set_eq_fold)
  finally have f: "unat (max_chain_length (db_stats (Some d))) = Max (set (0 # map length (table d)))" .
  from a b c e f show ?thesis
    by simp
qed

theorem db_stats_correct_witness:
  "store_ok False heap1 db1
   \<and> total_entries (db_stats (Some db1)) = db_count (Some db1)
   \<and> db_count (Some db1) = 1"
  using db_stats_correct [OF store_ok_db1] store_ok_db1 by (simp add: db_count_def db1_def)

section \<open>Key enumeration\<close>

lemma keys_chain_eq:
  "idx + length chain \<le> length keys \<Longrightarrow>
   keys_chain chain (keys, idx) =
     (take idx keys @ map key chain @ drop (idx + length chain) keys, idx + length chain)"
proof (induction chain arbitrary: keys idx)
  case Nil
  then show ?case by simp
next
  case (Cons e rest)
  then have idx: "idx < length keys" by simp
  have t: "take (Suc idx) (keys[idx := key e]) = take idx keys @ [key e]"
    using idx by (simp add: take_Suc_conv_app_nth)
  have "keys_chain (e # rest) (keys, idx) = keys_chain rest (keys[idx := key e], Suc idx)"
    by simp
  also have "\<dots> = (take (Suc idx) (keys[idx := key e]) @ map key rest @
      drop (Suc idx + length rest) (keys[idx := key e]), Suc idx + length rest)"
    using Cons.prems by (intro Cons.IH) simp
  finally show ?case
    by (simp add: t)
qed

lemma length_keys_chain:
  "idx + length chain \<le> length keys \<Longrightarrow> length (fst (keys_chain chain (keys, idx))) = length keys"
  by (simp add: keys_chain_eq)

lemma keys_fold_eq:
  "idx + length (concat t) \<le> length keys \<Longrightarrow>
   fold keys_chain t (keys, idx) =
     (take idx keys @ map key (concat t) @ drop (idx + length (concat t)) keys,
      idx + length (concat t))"
proof (induction t arbitrary: keys idx)
  case Nil
  then show ?case by simp
next
  case (Cons chain t)
  let ?keys' = "take idx keys @ map key chain @ drop (idx + length chain) keys"
  have c: "idx + length chain \<le> length keys"
    using Cons.prems by simp
  then have len: "length ?keys' = length keys"
    by simp
  have t1: "take (idx + length chain) ?keys' = take idx keys @ map key chain"
    using c by simp
  have t2: "drop (idx + length chain + length (concat t)) ?keys' =
      drop (idx + length chain + length (concat t)) keys"
    using c by (simp add: ac_simps)
  have "fold keys_chain (chain # t) (keys, idx) = fold keys_chain t (?keys', idx + length chain)"
    using c by (simp add: keys_chain_eq)
  also have "\<dots> = (take (idx + length chain) ?keys' @ map key (concat t) @
      drop (idx + length chain + length (concat t)) ?keys', idx + length chain + length (concat t))"
    using Cons.prems len by (intro Cons.IH) simp
  finally have "fold keys_chain (chain # t) (keys, idx) =
      ((take idx keys @ map key chain) @ map key (concat t) @
         drop (idx + length chain + length (concat t)) keys,
       idx + length chain + length (concat t))"
    by (simp only: t1 t2)
  then show ?case
    by (simp add: add.assoc)
qed

lemma db_keys_eq:
  assumes len: "length (table d) = HASH_TABLE_SIZE" and cok: "count_ok d"
  shows "db_keys h (Some d) (Some c) =
           (if count d = 0 then (None, Some (count d), h)
            else case malloc h of
                   (a, h') \<Rightarrow>
                     if a = NULL then (None, Some (count d), h')
                     else (Some (map key (entries d)), Some (count d), h'))"
proof -
  let ?keys = "replicate (unat (count d)) NULL"
  have n: "length (concat (table d)) = unat (count d)"
    using cok by (simp add: count_ok_def entries_def)
  have "fold (\<lambda>i. keys_chain (table d ! i)) [0..<HASH_TABLE_SIZE] (?keys, 0) =
      fold keys_chain (table d) (?keys, 0)"
    using len by (rule fold_nth)
  also have "\<dots> = (take 0 ?keys @ map key (concat (table d)) @
      drop (0 + length (concat (table d))) ?keys, 0 + length (concat (table d)))"
    by (rule keys_fold_eq) (simp add: n)
  finally have "fst (fold (\<lambda>i. keys_chain (table d ! i)) [0..<HASH_TABLE_SIZE] (?keys, 0)) =
      map key (entries d)"
    by (simp add: n entries_def)
  then show ?thesis
    by (simp add: db_keys_def split: prod.splits)
qed

lemma mem_free_chain:
  "mem (free_chain h chain) =
     (\<lambda>p. if p \<in> set (chain_pointers chain) \<and> p \<noteq> NULL then None else mem h p)"
  by (induction chain arbitrary: h) (auto simp: free_entry_def mem_free fun_eq_iff)

lemma mem_free_table:
  "mem (fold (\<lambda>chain h. free_chain h chain) t h) =
     (\<lambda>p. if p \<in> set (chain_pointers (concat t)) \<and> p \<noteq> NULL then None else mem h p)"
  by (induction t arbitrary: h) (auto simp: mem_free_chain fun_eq_iff)

lemma db_destroy_eq:
  "length (table d) = HASH_TABLE_SIZE \<Longrightarrow>
   db_destroy h (Some d) = fold (\<lambda>chain h'. free_chain h' chain) (table d) h"
  using fold_nth [of "table d" HASH_TABLE_SIZE "\<lambda>chain h'. free_chain h' chain" h]
  by (simp add: db_destroy_def)

text \<open>
  Claim C7, as amended. On a store that satisfies its invariants, when \<open>db_keys\<close>
  returns an array, the count cell holds \<open>db_count\<close>, the array has that many
  elements, and they are the \<^verbatim>\<open>key\<close> pointers of the entries in bucket-then-chain
  order: each element is the address of the store's own buffer for that key, which
  reads the key now, and no string was copied (the memory holds the same buffers as
  before the call). The array aliases the store: once \<open>db_delete\<close> has removed a
  present key, the element that pointed to it is the address of a freed buffer, and
  after \<open>db_clear\<close>, and likewise after \<open>db_destroy\<close>, so is every element.
\<close>

theorem db_keys_borrowed:
  assumes "store_ok cs h d" and "db_keys h (Some d) (Some c) = (Some ks, c', h')"
  shows "ks = map key (entries d)
       \<and> c' = Some (db_count (Some d)) \<and> length ks = unat (db_count (Some d))
       \<and> mem h' = mem h
       \<and> map (mem h') ks = map (\<lambda>e. mem h (key e)) (entries d)
       \<and> (\<forall>k. present h d k \<longrightarrow>
            (\<exists>p \<in> set ks. mem h' p = Some k \<and>
               mem (fst (snd (db_delete cs h' (Some d) (Some k)))) p = None))
       \<and> (\<forall>p \<in> set ks. mem h' p \<noteq> None \<and> mem (fst (db_clear h' (Some d))) p = None)
       \<and> (\<forall>p \<in> set ks. mem h' p \<noteq> None \<and> mem (db_destroy h' (Some d)) p = None)"
proof -
  have hok: "heap_ok h d" and cok: "count_ok d" and bok: "buckets_ok cs h d"
    using assms(1) by (simp_all add: store_ok_def)
  note H = heap_okD [OF hok]
  have m: "mem h' = mem h"
    using assms(2) by (rule db_keys_mem)
  have ok': "store_ok cs h' d"
    using assms(1) m by (rule store_ok_mem)
  have ks: "ks = map key (entries d)" and c': "c' = Some (count d)"
    using assms(2) db_keys_eq [OF H(1) cok, of h c]
    by (auto split: if_splits prod.splits)
  have len: "length ks = unat (db_count (Some d))"
    using cok by (simp add: ks count_ok_def db_count_def)
  have reads: "map (mem h') ks = map (\<lambda>e. mem h (key e)) (entries d)"
    by (simp add: ks m comp_def)
  have del: "\<exists>p \<in> set ks. mem h' p = Some k \<and>
      mem (fst (snd (db_delete cs h' (Some d) (Some k)))) p = None" if "present h d k" for k
  proof -
    let ?i = "unat (hash_function cs k)"
    have "\<exists>e \<in> set (table d ! ?i). mem h' (key e) = Some k"
      using present_bucket [OF bok H(1), of k] that by (simp add: m)
    then obtain pre e post where split: "table d ! ?i = pre @ e # post"
      "\<forall>x \<in> set pre. mem h' (key x) \<noteq> Some k" "mem h' (key e) = Some k"
      using first_match by blast
    have ein: "e \<in> set (entries d)"
      using index_less [OF hok] split(1) by (rule split_in_entries)
    then have "key e \<noteq> NULL" "value e \<noteq> NULL"
      using H(3) by blast+
    then have "mem (free_entry h' e) = (mem h')(key e := None, value e := None)"
      by (rule mem_free_entry)
    then have "mem (fst (snd (db_delete cs h' (Some d) (Some k)))) (key e) = None"
      using db_delete_present [OF split] by simp
    with ein split(3) show ?thesis
      by (auto simp: ks)
  qed
  have clr: "mem h' p \<noteq> None \<and> mem (fst (db_clear h' (Some d))) p = None" if "p \<in> set ks" for p
  proof -
    from that obtain e where e: "e \<in> set (entries d)" "p = key e"
      by (auto simp: ks)
    then have "p \<noteq> NULL" "mem h' p \<noteq> None" "p \<in> set (chain_pointers (concat (table d)))"
      using H(3) [OF e(1)] key_in_pointers [OF e(1)] by (simp_all add: m entries_def)
    then show ?thesis
      by (simp add: db_clear_eq [OF H(1)] mem_free_table)
  qed
  have dst: "mem h' p \<noteq> None \<and> mem (db_destroy h' (Some d)) p = None" if "p \<in> set ks" for p
  proof -
    from that obtain e where e: "e \<in> set (entries d)" "p = key e"
      by (auto simp: ks)
    then have "p \<noteq> NULL" "mem h' p \<noteq> None" "p \<in> set (chain_pointers (concat (table d)))"
      using H(3) [OF e(1)] key_in_pointers [OF e(1)] by (simp_all add: m entries_def)
    then show ?thesis
      by (simp add: db_destroy_eq [OF H(1)] mem_free_table)
  qed
  from ks c' len m reads del clr dst show ?thesis
    by (simp add: db_count_def)
qed

lemma keys_a: "db_keys heap1 (Some db1) (Some 0) = (Some [32], Some 1, heap1\<lparr>pending := [80, 96]\<rparr>)"
proof -
  have "length (table db1) = HASH_TABLE_SIZE" "count_ok db1"
    using store_ok_db1 by (simp_all add: store_ok_def heap_ok_def)
  then have "db_keys heap1 (Some db1) (Some 0) =
      (if count db1 = 0 then (None, Some (count db1), heap1)
       else case malloc heap1 of
              (a, h') \<Rightarrow>
                if a = NULL then (None, Some (count db1), h')
                else (Some (map key (entries db1)), Some (count db1), h'))"
    by (rule db_keys_eq)
  moreover have "count db1 = 1"
    by (simp add: db1_def)
  moreover have "malloc heap1 = (64, heap1\<lparr>pending := [80, 96]\<rparr>)"
    by (simp add: malloc_def heap1_def NULL_def)
  ultimately show ?thesis
    by (simp add: entries_db1 NULL_def)
qed

theorem db_keys_borrowed_witness:
  "store_ok False heap1 db1
   \<and> db_keys heap1 (Some db1) (Some 0) = (Some [32], Some 1, heap1\<lparr>pending := [80, 96]\<rparr>)
   \<and> [32] = map key (entries db1)
   \<and> mem (heap1\<lparr>pending := [80, 96]\<rparr>) = mem heap1
   \<and> mem (fst (db_clear (heap1\<lparr>pending := [80, 96]\<rparr>) (Some db1))) 32 = None
   \<and> mem (db_destroy (heap1\<lparr>pending := [80, 96]\<rparr>) (Some db1)) 32 = None"
  using db_keys_borrowed [OF store_ok_db1 keys_a] store_ok_db1 keys_a by simp

text \<open>
  The claim as stated fails. In the store that holds \<^verbatim>\<open>"a"\<close>, whose entry keeps
  its key in the buffer at address 32, \<open>db_keys\<close> returns the array \<open>[32]\<close>: the
  element is that very buffer, not a copy. After \<^verbatim>\<open>db_delete(db, "a")\<close> the buffer
  is freed, so reading the array's element reads freed memory.
\<close>

theorem db_keys_aliases_store:
  "fst (db_keys heap1 (Some db1) (Some 0)) = Some [32]
   \<and> table db1 ! 518 = [\<lparr>key = 32, value = 48\<rparr>]
   \<and> mem heap1 32 = Some ''a''
   \<and> mem (fst (snd (db_delete False (snd (snd (db_keys heap1 (Some db1) (Some 0))))
                      (Some db1) (Some ''a'')))) 32 = None"
proof -
  have "db_delete False (heap1\<lparr>pending := [80, 96]\<rparr>) (Some db1) (Some ''a'') =
     (True, heap1\<lparr>mem := (mem heap1)(32 := None, 48 := None), pending := [80, 96]\<rparr>, Some db0)"
    by (simp add: db_delete_def hash_a db1_def db0_def heap1_def HASH_TABLE_SIZE_def
        key_matches_def free_entry_def free_def NULL_def)
  then show ?thesis
    using bucket_a by (simp add: keys_a) (simp add: heap1_def)
qed

end
